theory Spec2Isabelle
  imports Main
begin

section \<open>Strings\<close>

text \<open>
  A string is the list of its code units. The model covers text whose code units lie
  below 256 (ASCII and Latin-1), which is what \<open>char\<close> holds. White space is what
  \<^verbatim>\<open>String.prototype.trim\<close> and the regular-expression escape \<^verbatim>\<open>\s\<close> accept in that
  range: tab, line feed, vertical tab, form feed, carriage return, space and the
  no-break space.
\<close>

definition isWhiteSpace :: "char \<Rightarrow> bool" where
  "isWhiteSpace c =
     (c \<in> set [CHR 0x09, CHR 0x0A, CHR 0x0B, CHR 0x0C, CHR 0x0D, CHR 0x20, CHR 0xA0])"

definition in_range :: "char \<Rightarrow> char \<Rightarrow> char \<Rightarrow> bool" where
  "in_range lo hi c = ((of_char lo :: nat) \<le> of_char c \<and> (of_char c :: nat) \<le> of_char hi)"

text \<open>
  Case mapping of one code unit, as the \<^verbatim>\<open>i\<close> flag of a regular expression compares
  them: the ASCII letters and the Latin-1 letters that have their other case inside
  Latin-1; every other code unit is left as it is.
\<close>

definition upper_char :: "char \<Rightarrow> char" where
  "upper_char c =
     (if in_range CHR ''a'' CHR ''z'' c \<or> (in_range CHR 0xE0 CHR 0xFE c \<and> c \<noteq> CHR 0xF7)
      then char_of ((of_char c :: nat) - 32) else c)"

definition lower_char :: "char \<Rightarrow> char" where
  "lower_char c =
     (if in_range CHR ''A'' CHR ''Z'' c \<or> (in_range CHR 0xC0 CHR 0xDE c \<and> c \<noteq> CHR 0xD7)
      then char_of ((of_char c :: nat) + 32) else c)"

text \<open>
  \<^verbatim>\<open>String.prototype.toUpperCase\<close> is not one to one on code units: the sharp s (0xDF)
  becomes \<^verbatim>\<open>SS\<close>, and the capitals of the micro sign (0xB5) and of the y with diaeresis
  (0xFF) lie outside Latin-1, at 0x39C and 0x178. So the upper-cased text is the list of
  its code units as numbers, and \<open>units\<close> gives the code units of a text as it is.
\<close>

definition upperUnits :: "char \<Rightarrow> nat list" where
  "upperUnits c =
     (if c = CHR 0xDF then [0x53, 0x53]
      else if c = CHR 0xB5 then [0x39C]
      else if c = CHR 0xFF then [0x178]
      else [of_char (upper_char c)])"

definition toUpperCase :: "string \<Rightarrow> nat list" where
  "toUpperCase s = concat (map upperUnits s)"

definition units :: "string \<Rightarrow> nat list" where
  "units s = map of_char s"

definition trim :: "string \<Rightarrow> string" where
  "trim s = rev (dropWhile isWhiteSpace (rev (dropWhile isWhiteSpace s)))"

definition startsWith :: "'a list \<Rightarrow> 'a list \<Rightarrow> bool" where
  "startsWith s p = (take (length p) s = p)"

definition endsWith :: "'a list \<Rightarrow> 'a list \<Rightarrow> bool" where
  "endsWith s p = (length p \<le> length s \<and> drop (length s - length p) s = p)"

text \<open>\<^verbatim>\<open>content.split('\n')\<close>: the pieces between line feeds; an empty text is one empty line.\<close>

fun split_nl :: "string \<Rightarrow> string list" where
  "split_nl [] = [[]]"
| "split_nl (x # xs) =
     (if x = CHR 0x0A then [] # split_nl xs
      else (case split_nl xs of l # ls \<Rightarrow> (x # l) # ls | [] \<Rightarrow> [[x]]))"

text \<open>
  \<^verbatim>\<open>.replace(/\s\s+/g, ' ')\<close>: every maximal run of two or more white-space code units
  becomes one space.
\<close>

function replace_ws_runs :: "string \<Rightarrow> string" where
  "replace_ws_runs [] = []"
| "replace_ws_runs [x] = [x]"
| "replace_ws_runs (x # y # t) =
     (if isWhiteSpace x \<and> isWhiteSpace y
      then CHR 0x20 # replace_ws_runs (dropWhile isWhiteSpace t)
      else x # replace_ws_runs (y # t))"
  by pat_completeness auto
termination
  by (relation "measure length") (auto intro: le_SucI le_imp_less_Suc length_dropWhile_le)

section \<open>Regular expressions\<close>

text \<open>
  The parser classifies lines with JavaScript regular expressions, so the model carries
  a backtracking matcher that follows the ECMAScript matching rules: alternatives are
  tried left to right, a greedy quantifier tries one more iteration before it tries the
  rest of the pattern, a lazy one the other way round, an iteration of a quantifier with
  minimum 0 that consumes nothing is rejected, and the capture groups inside a
  quantified atom are reset at the start of each iteration. The matcher returns every
  way of matching, in the order in which the backtracking search finds them, so the
  head of the list is the match that \<^verbatim>\<open>exec\<close> reports.

  The rule on empty iterations compares the end positions before and after the
  iteration. The matcher only moves forward (lemma \<open>mt_suffix\<close> below), so the model
  compares the lengths of the remaining input, which also gives the termination of the
  repetition.
\<close>

datatype citem = CChar char | CRange char char | CSpace | CDigit

datatype re =
    Eps
  | Lit char
  | Cls bool "citem list"
  | Dot
  | Bol
  | Eol
  | Seq re re
  | Alt re re
  | Rep nat "nat option" bool re
  | Grp nat re

type_synonym caps = "nat \<Rightarrow> string option"

text \<open>
  \<open>Cls neg items\<close> is a character class, negated when \<open>neg\<close> holds; \<open>Rep mn mx g r\<close> is
  \<open>r\<close> repeated at least \<open>mn\<close> and at most \<open>mx\<close> times (\<open>None\<close>: no bound), greedy when
  \<open>g\<close> holds; \<open>Grp k r\<close> is capture group number \<open>k\<close>. The flag \<open>ic\<close> is the \<^verbatim>\<open>i\<close> flag.
\<close>

fun item_match :: "bool \<Rightarrow> char \<Rightarrow> citem \<Rightarrow> bool" where
  "item_match ic ch (CChar a) = (if ic then upper_char a = upper_char ch else a = ch)"
| "item_match ic ch (CRange lo hi) =
     (in_range lo hi ch \<or>
      (ic \<and> (in_range lo hi (upper_char ch) \<or> in_range lo hi (lower_char ch))))"
| "item_match ic ch CSpace = isWhiteSpace ch"
| "item_match ic ch CDigit = in_range CHR ''0'' CHR ''9'' ch"

fun groups :: "re \<Rightarrow> nat list" where
  "groups (Seq a b) = groups a @ groups b"
| "groups (Alt a b) = groups a @ groups b"
| "groups (Rep mn mx g r) = groups r"
| "groups (Grp k r) = k # groups r"
| "groups _ = []"

definition clear :: "nat list \<Rightarrow> caps \<Rightarrow> caps" where
  "clear ks c = (\<lambda>k. if k \<in> set ks then None else c k)"

text \<open>
  The state of a match is the input still to be read and the captures so far; \<open>n\<close> is
  the length of the whole input, by which \<open>Bol\<close> recognises the start.
\<close>

function (sequential) mt :: "bool \<Rightarrow> nat \<Rightarrow> re \<Rightarrow> string \<times> caps \<Rightarrow> (string \<times> caps) list" where
  "mt ic n Eps st = [st]"
| "mt ic n (Lit a) (s, c) =
     (case s of [] \<Rightarrow> [] | x # xs \<Rightarrow> if item_match ic x (CChar a) then [(xs, c)] else [])"
| "mt ic n (Cls neg items) (s, c) =
     (case s of [] \<Rightarrow> []
      | x # xs \<Rightarrow> if (\<exists>i \<in> set items. item_match ic x i) \<noteq> neg then [(xs, c)] else [])"
| "mt ic n Dot (s, c) =
     (case s of [] \<Rightarrow> [] | x # xs \<Rightarrow> if x = CHR 0x0A \<or> x = CHR 0x0D then [] else [(xs, c)])"
| "mt ic n Bol (s, c) = (if length s = n then [(s, c)] else [])"
| "mt ic n Eol (s, c) = (if s = [] then [(s, c)] else [])"
| "mt ic n (Seq a b) st = concat (map (\<lambda>st'. mt ic n b st') (mt ic n a st))"
| "mt ic n (Alt a b) st = mt ic n a st @ mt ic n b st"
| "mt ic n (Grp k r) (s, c) =
     map (\<lambda>(s', c'). (s', c'(k := Some (take (length s - length s') s)))) (mt ic n r (s, c))"
| "mt ic n (Rep mn mx g r) (s, c) =
     (if mx = Some 0 then [(s, c)]
      else
        let more = concat (map (\<lambda>(s', c').
                     if mn = 0 \<and> \<not> length s' < length s then []
                     else mt ic n (Rep (mn - 1) (map_option (\<lambda>m. m - 1) mx) g r) (s', c'))
                   (mt ic n r (s, clear (groups r) c)))
        in if mn \<noteq> 0 then more
           else if g then more @ [(s, c)]
           else (s, c) # more)"
  by pat_completeness auto
termination
  apply (relation "(\<lambda>(ic, n, r, st). size r)
          <*mlex*> (\<lambda>(ic, n, r, st). case r of Rep mn _ _ _ \<Rightarrow> mn | _ \<Rightarrow> 0)
          <*mlex*> measure (\<lambda>(ic, n, r, (s, c)). length s)")
  apply (auto simp: wf_mlex mlex_prod_def)
  done

text \<open>
  \<^verbatim>\<open>exec\<close> without the \<^verbatim>\<open>g\<close> flag: try the start positions from the left and report the
  captures of the first match.
\<close>

fun exec_from :: "bool \<Rightarrow> nat \<Rightarrow> re \<Rightarrow> string \<Rightarrow> caps option" where
  "exec_from ic n r [] =
     (case mt ic n r ([], \<lambda>k. None) of [] \<Rightarrow> None | (s', c) # rest \<Rightarrow> Some c)"
| "exec_from ic n r (x # t) =
     (case mt ic n r (x # t, \<lambda>k. None) of [] \<Rightarrow> exec_from ic n r t | (s', c) # rest \<Rightarrow> Some c)"

definition re_exec :: "bool \<Rightarrow> re \<Rightarrow> string \<Rightarrow> caps option" where
  "re_exec ic r s = exec_from ic (length s) r s"

definition re_test :: "bool \<Rightarrow> re \<Rightarrow> string \<Rightarrow> bool" where
  "re_test ic r s = (re_exec ic r s \<noteq> None)"

subsection \<open>Pattern syntax\<close>

definition lit :: "string \<Rightarrow> re" where
  "lit s = foldr (\<lambda>c r. Seq (Lit c) r) s Eps"

definition seqs :: "re list \<Rightarrow> re" where
  "seqs rs = foldr Seq rs Eps"

fun alts :: "re list \<Rightarrow> re" where
  "alts [] = Eps"
| "alts [r] = r"
| "alts (r # rs) = Alt r (alts rs)"

definition star :: "re \<Rightarrow> re" where "star r = Rep 0 None True r"
definition lazy_star :: "re \<Rightarrow> re" where "lazy_star r = Rep 0 None False r"
definition plus :: "re \<Rightarrow> re" where "plus r = Rep 1 None True r"
definition lazy_plus :: "re \<Rightarrow> re" where "lazy_plus r = Rep 1 None False r"
definition opt :: "re \<Rightarrow> re" where "opt r = Rep 0 (Some 1) True r"
definition ws :: re where "ws = Cls False [CSpace]"
definition digit :: re where "digit = Cls False [CDigit]"

section \<open>The patterns of the transcript parser\<close>

text \<open>
  Each pattern below is the regular expression that the \<^verbatim>\<open>RegExp\<close> constructor receives,
  that is, the source text after JavaScript has processed the escapes of the string
  literal that holds it. In an ordinary or template string literal \<^verbatim>\<open>\s\<close> is the letter
  \<^verbatim>\<open>s\<close>, \<^verbatim>\<open>\(\<close> is \<^verbatim>\<open>(\<close>, \<^verbatim>\<open>\[\<close> is \<^verbatim>\<open>[\<close> and \<^verbatim>\<open>\-\<close> is \<^verbatim>\<open>-\<close>; only \<^verbatim>\<open>\\\<close> hands a
  backslash to the regular expression.

  The three helper constants are written with single backslashes:
  \<^item> \<^verbatim>\<open>SPEAKER_CORE_CHARSET = '[A-Z0-9\s,\'\-.()]'\<close> is the text \<^verbatim>\<open>[A-Z0-9s,'-.()]\<close>:
    the letters, the digits, the letter \<^verbatim>\<open>s\<close>, the comma, the range from the
    apostrophe (0x27) to the period (0x2E), and the two parentheses. It holds no
    white space.
  \<^item> \<^verbatim>\<open>OPTIONAL_PAREN_ANNOTATION = '(?:\s*\([^)]*?\))?'\<close> is the text
    \<^verbatim>\<open>(?:s*([^)]*?))?\<close>: any number of \<^verbatim>\<open>s\<close>, then a capture group that lazily takes
    code units other than the closing parenthesis.
  \<^item> \<^verbatim>\<open>OPTIONAL_BRACKET_ANNOTATION = '(?:\s*\[[^\]]*?\])?'\<close> is the text
    \<^verbatim>\<open>(?:s*[[^]]*?])?\<close>: any number of \<^verbatim>\<open>s\<close>, one of \<^verbatim>\<open>[\<close> and \<^verbatim>\<open>^\<close>, lazily any number
    of \<^verbatim>\<open>]\<close>, and one \<^verbatim>\<open>]\<close>.
  The capture group of the parenthesis annotation is numbered by its place in the
  pattern that embeds it, so its number is a parameter.
\<close>

definition SPEAKER_CORE_CHARSET :: re where
  "SPEAKER_CORE_CHARSET =
     Cls False [CRange CHR ''A'' CHR ''Z'', CRange CHR ''0'' CHR ''9'', CChar CHR ''s'',
                CChar CHR '','', CRange CHR 0x27 CHR ''.'', CChar CHR ''('', CChar CHR '')'']"

definition SPEAKER_BASE_NAME :: re where
  "SPEAKER_BASE_NAME = Seq (Cls False [CRange CHR ''A'' CHR ''Z'']) (star SPEAKER_CORE_CHARSET)"

definition OPTIONAL_PAREN_ANNOTATION :: "nat \<Rightarrow> re" where
  "OPTIONAL_PAREN_ANNOTATION k =
     opt (Seq (star (Lit CHR ''s'')) (Grp k (lazy_star (Cls True [CChar CHR '')'']))))"

definition OPTIONAL_BRACKET_ANNOTATION :: re where
  "OPTIONAL_BRACKET_ANNOTATION =
     opt (seqs [star (Lit CHR ''s''), Cls False [CChar CHR ''['', CChar CHR ''^''],
                lazy_star (Lit CHR '']''), Lit CHR '']''])"

definition SPEAKER_TAG_PATTERN :: "nat \<Rightarrow> re" where
  "SPEAKER_TAG_PATTERN k =
     Seq SPEAKER_BASE_NAME (Seq (OPTIONAL_PAREN_ANNOTATION k) OPTIONAL_BRACKET_ANNOTATION)"

text \<open>\<^verbatim>\<open>SCENE_HEADER\<close>: \<^verbatim>\<open>^\s*\d+\s+(.+?)\s+\d+\s*$\<close>\<close>

definition SCENE_HEADER :: re where
  "SCENE_HEADER =
     seqs [Bol, star ws, plus digit, plus ws, Grp 1 (lazy_plus Dot), plus ws, plus digit,
           star ws, Eol]"

text \<open>\<^verbatim>\<open>MOVIE_LINE\<close>: \<^verbatim>\<open>^\s*(?:\d+\s+OMITTED(?:\s+\d+)?|\d+)\s*$\<close>\<close>

definition MOVIE_LINE :: re where
  "MOVIE_LINE =
     seqs [Bol, star ws,
           Alt (seqs [plus digit, plus ws, lit ''OMITTED'', opt (Seq (plus ws) (plus digit))])
               (plus digit),
           star ws, Eol]"

text \<open>\<^verbatim>\<open>FOOTER\<close>: \<^verbatim>\<open>^\s*<Back to the episode listing\<close>\<close>

definition FOOTER :: re where
  "FOOTER = seqs [Bol, star ws, lit ''<Back to the episode listing'']"

text \<open>
  \<^verbatim>\<open>CUE_START\<close>, with the speaker tag spliced in:
  \<^verbatim>\<open>^\s*(?:(?:(?:\([^)]*?\)\s*)?([A-Z][A-Z0-9s,'-.()]*(?:s*([^)]*?))?(?:s*[[^]]*?])?)\s*:)\<close>
  \<^verbatim>\<open>|(?:\(([^)]*?)\))|(?:\[(.*?)\])|(?:((?:Stardate|Captain\'s log|Original Airdate):)))\<close>
  Group 1 is the speaker tag, group 2 the group inside the parenthesis annotation,
  groups 3, 4 and 5 those of the other three alternatives.
\<close>

definition CUE_START :: re where
  "CUE_START =
     seqs [Bol, star ws,
       alts [
         seqs [opt (seqs [Lit CHR ''('', lazy_star (Cls True [CChar CHR '')'']), Lit CHR '')'',
                          star ws]),
               Grp 1 (SPEAKER_TAG_PATTERN 2), star ws, Lit CHR '':''],
         seqs [Lit CHR ''('', Grp 3 (lazy_star (Cls True [CChar CHR '')''])), Lit CHR '')''],
         seqs [Lit CHR ''['', Grp 4 (lazy_star Dot), Lit CHR '']''],
         Grp 5 (Seq (alts [lit ''Stardate'', lit (''Captain'' @ [CHR 0x27] @ ''s log''),
                           lit ''Original Airdate''])
                    (Lit CHR '':''))]]"

text \<open>
  \<^verbatim>\<open>MOVIE_SPEAKER\<close>: \<^verbatim>\<open>^\s{10,}([A-Z][A-Z0-9\s\'\.]*(?:\([A-Z\s\.]+\))?(?:\'S\sVOICE)?)\s*$\<close>
\<close>

definition MOVIE_SPEAKER :: re where
  "MOVIE_SPEAKER =
     seqs [Bol, Rep 10 None True ws,
       Grp 1 (seqs [
         Cls False [CRange CHR ''A'' CHR ''Z''],
         star (Cls False [CRange CHR ''A'' CHR ''Z'', CRange CHR ''0'' CHR ''9'', CSpace,
                          CChar CHR 0x27, CChar CHR ''.'']),
         opt (seqs [Lit CHR ''('',
                    plus (Cls False [CRange CHR ''A'' CHR ''Z'', CSpace, CChar CHR ''.'']),
                    Lit CHR '')'']),
         opt (seqs [Lit CHR 0x27, Lit CHR ''S'', ws, lit ''VOICE''])]),
       star ws, Eol]"

text \<open>
  \<^verbatim>\<open>CREDIT_LINE\<close> is a regular-expression literal with the \<^verbatim>\<open>i\<close> flag:
  \<^verbatim>\<open>^(?:\s*\[null\]\s*)?(?:Story by|Screenplay by|...|credits? and transcriptions by)\<close>.
  The accented letter of the French credits is the code unit 0xE9.
\<close>

definition CREDIT_LINE :: re where
  "CREDIT_LINE =
     seqs [Bol, opt (seqs [star ws, lit ''[null]'', star ws]),
       alts [
         lit ''Story by'', lit ''Screenplay by'', lit ''Written by'', lit ''Directed by'',
         lit ''Produced by'', lit ''Executive Producer'', lit ''Co-Executive Producer'',
         lit ''Associate Producer'', lit ''Consulting Producer'', lit ''Teleplay by'',
         lit ''First Draft'', lit ''Original Airdate:'', lit ''Airdate:'',
         lit (''Captain'' @ [CHR 0x27] @ ''s log, supplemental''),
         seqs [lit ''Stardate'', star Dot, plus digit, Lit CHR ''.'', plus digit],
         lit (''bas'' @ [CHR 0xE9] @ ''e sur une id'' @ [CHR 0xE9] @ ''e originale''),
         lit ''une coproduction de'', lit (''adapt'' @ [CHR 0xE9] @ '' par''),
         lit ''dialogues de'', lit (''sc'' @ [CHR 0xE9] @ ''nario et dialogues''),
         lit ''September 29, 1995'', lit ''copyright'', lit ''all rights reserved'',
         lit ''transcribed by'',
         seqs [lit ''credit'', opt (Lit CHR ''s''), lit '' and transcriptions by'']]]"

section \<open>The transcript parser\<close>

record TranscriptCue =
  raw :: string
  character :: "string option"

record ParsingState =
  cues :: "TranscriptCue list"
  currentCue :: "TranscriptCue option"
  pendingMovieSpeaker :: "string option"
  currentSceneContext :: "string option"

text \<open>A string that may be \<^verbatim>\<open>null\<close> or \<^verbatim>\<open>undefined\<close> is truthy when it is set and not empty.\<close>

definition truthy :: "string option \<Rightarrow> bool" where
  "truthy x = (case x of None \<Rightarrow> False | Some s \<Rightarrow> s \<noteq> [])"

definition pushCue :: "TranscriptCue \<Rightarrow> ParsingState \<Rightarrow> ParsingState" where
  "pushCue cueToAdd st =
     (if trim (raw cueToAdd) \<noteq> [] then st\<lparr>cues := cues st @ [cueToAdd]\<rparr> else st)"

text \<open>
  \<^verbatim>\<open>_finalizeAndAddCue\<close>, block by block. \<open>characterToUse\<close> is the trimmed speaker of
  the cue in progress, when it is set and not blank.
\<close>

definition characterToUse :: "TranscriptCue \<Rightarrow> string option" where
  "characterToUse cc =
     (case character cc of
        None \<Rightarrow> None
      | Some ch \<Rightarrow> if ch \<noteq> [] \<and> trim ch \<noteq> [] then Some (trim ch) else None)"

text \<open>The trimmed text with the \<^verbatim>\<open>[null]\<close> artifact stripped.\<close>

definition strippedRawText :: "TranscriptCue \<Rightarrow> string" where
  "strippedRawText cc =
     (let rawText0 = trim (raw cc);
          rawText1 = (if startsWith rawText0 ''[null] ''
                      then drop (length ''[null] '') rawText0 else rawText0)
      in if rawText1 = ''[null]'' then [] else rawText1)"

text \<open>The dialogue branch: the cue of speaker \<open>ch\<close> built from the text \<open>rawText\<close>.\<close>

definition dialogueCue :: "string \<Rightarrow> string \<Rightarrow> TranscriptCue" where
  "dialogueCue ch rawText =
     (let dialogueSegment =
            (if startsWith (toUpperCase rawText) (toUpperCase ch @ units '':'')
             then trim (drop (length ch + 1) rawText) else rawText)
      in \<lparr>raw = ch @ '': '' @ dialogueSegment, character = Some ch\<rparr>)"

text \<open>
  The description branch: the cue built from \<open>rawText\<close> under the scene context, and the
  flag \<^verbatim>\<open>sceneContextEffectivelyApplied\<close>.
\<close>

definition descriptionCue :: "string option \<Rightarrow> string \<Rightarrow> TranscriptCue \<times> bool" where
  "descriptionCue sceneContext rawText =
     (case sceneContext of
        None \<Rightarrow> (\<lparr>raw = rawText, character = None\<rparr>, False)
      | Some ctx \<Rightarrow>
          if ctx = [] then (\<lparr>raw = rawText, character = None\<rparr>, False)
          else
            let isSelfContainedBracket = (startsWith rawText ''['' \<and> endsWith rawText '']'')
            in if isSelfContainedBracket \<and>
                  toUpperCase rawText = units ''['' @ toUpperCase ctx @ units '']''
               then (\<lparr>raw = rawText, character = None\<rparr>, True)
               else if \<not> isSelfContainedBracket \<and>
                       \<not> startsWith (toUpperCase rawText) (units ''['' @ toUpperCase ctx @ units '']'')
               then (\<lparr>raw = ''['' @ ctx @ ''] '' @ rawText, character = None\<rparr>, False)
               else (\<lparr>raw = rawText, character = None\<rparr>, False))"

definition finalizeAndAddCue :: "ParsingState \<Rightarrow> ParsingState" where
  "finalizeAndAddCue st =
     (case currentCue st of
        None \<Rightarrow> st\<lparr>currentCue := None\<rparr>
      | Some cc \<Rightarrow>
          if raw cc \<noteq> [] \<and> trim (raw cc) \<noteq> [] then
            (case characterToUse cc of
               Some ch \<Rightarrow>
                 (pushCue (dialogueCue ch (strippedRawText cc))
                    (st\<lparr>currentSceneContext := None\<rparr>))\<lparr>currentCue := None\<rparr>
             | None \<Rightarrow>
                 if strippedRawText cc = [] then st\<lparr>currentCue := None\<rparr>
                 else
                   (case descriptionCue (currentSceneContext st) (strippedRawText cc) of
                      (cueToAdd, sceneContextEffectivelyApplied) \<Rightarrow>
                        (pushCue cueToAdd
                           (if sceneContextEffectivelyApplied
                            then st\<lparr>currentSceneContext := None\<rparr> else st))
                          \<lparr>currentCue := None\<rparr>))
          else st\<lparr>currentCue := None\<rparr>)"

text \<open>
  The line classifier: the tests of \<^verbatim>\<open>_processLine\<close> in their order. The credit, scene
  header and cue-start patterns see the trimmed line, the footer, omitted-scene and
  movie-speaker patterns the original one. A class carries group 1 of its match; for a
  scene header and a movie speaker that group is always set (lemma
  \<open>classifyLine_groups\<close> below).
\<close>

datatype LineClass =
    CreditLine
  | SkippedLine
  | SceneHeaderLine "string option"
  | MovieSpeakerLine "string option"
  | CueStartLine "string option"
  | ContinuationLine

definition classifyLine :: "string \<Rightarrow> string \<Rightarrow> LineClass" where
  "classifyLine originalLine trimmedLine =
     (if re_test True CREDIT_LINE trimmedLine then CreditLine
      else if trimmedLine = [] \<or> re_test False FOOTER originalLine
              \<or> re_test False MOVIE_LINE originalLine then SkippedLine
      else (case re_exec False SCENE_HEADER trimmedLine of
              Some sceneHeaderMatch \<Rightarrow> SceneHeaderLine (sceneHeaderMatch 1)
            | None \<Rightarrow>
         (case re_exec False MOVIE_SPEAKER originalLine of
              Some movieSpeakerMatch \<Rightarrow> MovieSpeakerLine (movieSpeakerMatch 1)
            | None \<Rightarrow>
         (case re_exec False CUE_START trimmedLine of
              Some cueStartMatch \<Rightarrow> CueStartLine (cueStartMatch 1)
            | None \<Rightarrow> ContinuationLine))))"

definition processLine :: "string \<Rightarrow> string \<Rightarrow> ParsingState \<Rightarrow> ParsingState" where
  "processLine originalLine trimmedLine st =
     (case classifyLine originalLine trimmedLine of
        CreditLine \<Rightarrow>
          (finalizeAndAddCue st)
            \<lparr>currentCue := None, pendingMovieSpeaker := None, currentSceneContext := None\<rparr>
      | SkippedLine \<Rightarrow> (finalizeAndAddCue st)\<lparr>currentCue := None\<rparr>
      | SceneHeaderLine g \<Rightarrow>
          (finalizeAndAddCue st)
            \<lparr>pendingMovieSpeaker := None,
             currentSceneContext := Some (replace_ws_runs (trim (the g))),
             currentCue := None\<rparr>
      | MovieSpeakerLine g \<Rightarrow>
          (finalizeAndAddCue st)\<lparr>pendingMovieSpeaker := Some (trim (the g)), currentCue := None\<rparr>
      | CueStartLine g \<Rightarrow>
          (finalizeAndAddCue st)
            \<lparr>currentCue := Some \<lparr>raw = trimmedLine,
                                 character = (if truthy g then Some (trim (the g)) else None)\<rparr>,
             pendingMovieSpeaker := None\<rparr>
      | ContinuationLine \<Rightarrow>
          if truthy (pendingMovieSpeaker st) then
            (finalizeAndAddCue st)
              \<lparr>currentCue := Some \<lparr>raw = trimmedLine, character = pendingMovieSpeaker st\<rparr>,
               pendingMovieSpeaker := None\<rparr>
          else (case currentCue st of
                  Some cc \<Rightarrow> st\<lparr>currentCue := Some (cc\<lparr>raw := raw cc @ '' '' @ trimmedLine\<rparr>)\<rparr>
                | None \<Rightarrow>
                    (finalizeAndAddCue st)
                      \<lparr>currentCue := Some \<lparr>raw = trimmedLine, character = None\<rparr>\<rparr>))"

definition initialState :: ParsingState where
  "initialState =
     \<lparr>cues = [], currentCue = None, pendingMovieSpeaker = None, currentSceneContext = None\<rparr>"

text \<open>The loop of \<^verbatim>\<open>parseTranscript\<close> over the lines, and the parse of a file's text.\<close>

fun processLines :: "string list \<Rightarrow> ParsingState \<Rightarrow> ParsingState" where
  "processLines [] st = st"
| "processLines (line # rest) st = processLines rest (processLine line (trim line) st)"

definition parseContent :: "string \<Rightarrow> TranscriptCue list" where
  "parseContent content = cues (finalizeAndAddCue (processLines (split_nl content) initialState))"

section \<open>The cache service\<close>

text \<open>
  A cache entry is a value with an optional expiry instant, in milliseconds since the
  epoch, as \<^verbatim>\<open>Date.now()\<close> counts them.
\<close>

record 'v CacheItem =
  itemValue :: 'v
  expiry :: "nat option"

text \<open>
  The persisted tier is a directory of JSON files. A file holds text that does not
  parse, the JSON value \<^verbatim>\<open>null\<close>, or a cache entry; writing an entry and reading it
  back gives the entry again. The set \<open>denied\<close> holds the paths on which the file
  system refuses \<^verbatim>\<open>unlink\<close> and \<^verbatim>\<open>writeFile\<close>, so that the failure branches of the
  source are branches of the model.
\<close>

datatype 'v JsonFile = Malformed | JsonNull | JsonItem "'v CacheItem"

datatype IoError = IOFailure string | ParseFailure string

record 'v Disk =
  files :: "string \<rightharpoonup> 'v JsonFile"
  denied :: "string set"

definition fileExists :: "'v Disk \<Rightarrow> string \<Rightarrow> bool" where
  "fileExists d filePath = (files d filePath \<noteq> None)"

definition deleteFile :: "'v Disk \<Rightarrow> string \<Rightarrow> IoError + 'v Disk" where
  "deleteFile d filePath =
     (if files d filePath = None \<or> filePath \<in> denied d then Inl (IOFailure filePath)
      else Inr (d\<lparr>files := (files d)(filePath := None)\<rparr>))"

definition writeJsonFile :: "'v Disk \<Rightarrow> string \<Rightarrow> 'v CacheItem \<Rightarrow> IoError + 'v Disk" where
  "writeJsonFile d filePath cacheItem =
     (if filePath \<in> denied d then Inl (IOFailure filePath)
      else Inr (d\<lparr>files := (files d)(filePath \<mapsto> JsonItem cacheItem)\<rparr>))"

definition readJsonFile :: "'v Disk \<Rightarrow> string \<Rightarrow> IoError + 'v CacheItem option" where
  "readJsonFile d filePath =
     (case files d filePath of
        None \<Rightarrow> Inl (IOFailure filePath)
      | Some Malformed \<Rightarrow> Inl (ParseFailure filePath)
      | Some JsonNull \<Rightarrow> Inr None
      | Some (JsonItem fileCacheItem) \<Rightarrow> Inr (Some fileCacheItem))"

text \<open>\<^verbatim>\<open>try { await fileUtils.deleteFile(filePath) } catch { ... }\<close>: the failure is only logged.\<close>

definition tryDeleteFile :: "'v Disk \<Rightarrow> string \<Rightarrow> 'v Disk" where
  "tryDeleteFile d filePath = (case deleteFile d filePath of Inl e \<Rightarrow> d | Inr d' \<Rightarrow> d')"

text \<open>
  The service: its in-memory map, its configuration and the disk it persists to. The
  SHA-256 digest of \<^verbatim>\<open>hashKey\<close> is a library function; the model takes it as the field
  \<open>hashKey\<close>.
\<close>

record 'v CacheService =
  store :: "string \<rightharpoonup> 'v CacheItem"
  namespace :: string
  defaultTtlSeconds :: "int option"
  persistentCacheEnabled :: bool
  persistentCachePath :: "string option"
  hashKey :: "string \<Rightarrow> string"
  disk :: "'v Disk"

definition getFullKey :: "'v CacheService \<Rightarrow> string \<Rightarrow> string" where
  "getFullKey svc key = namespace svc @ '':'' @ key"

definition getFilePath :: "'v CacheService \<Rightarrow> string \<Rightarrow> string option" where
  "getFilePath svc hashedKey =
     (case persistentCachePath svc of
        None \<Rightarrow> None
      | Some dir \<Rightarrow> Some (dir @ ''/'' @ hashedKey @ ''.json''))"

text \<open>\<^verbatim>\<open>item.expiry && item.expiry < Date.now()\<close>\<close>

definition stale :: "'v CacheItem \<Rightarrow> nat \<Rightarrow> bool" where
  "stale item now = (case expiry item of None \<Rightarrow> False | Some e \<Rightarrow> e \<noteq> 0 \<and> e < now)"

text \<open>
  \<^verbatim>\<open>get\<close>, \<^verbatim>\<open>set\<close> and \<^verbatim>\<open>has\<close> take the reading of the clock and the service, and return
  their result with the service as they leave it; \<^verbatim>\<open>set\<close> returns the service, or the
  error it throws.
\<close>

definition get :: "nat \<Rightarrow> string \<Rightarrow> 'v CacheService \<Rightarrow> 'v option \<times> 'v CacheService" where
  "get now key svc =
     (let fullKey = getFullKey svc key in
      case store svc fullKey of
        Some memItem \<Rightarrow>
          if stale memItem now then
            let svc1 = svc\<lparr>store := (store svc)(fullKey := None)\<rparr> in
            (None,
             if persistentCacheEnabled svc1 then
               (case getFilePath svc1 (hashKey svc1 key) of
                  Some filePath \<Rightarrow>
                    if fileExists (disk svc1) filePath
                    then svc1\<lparr>disk := tryDeleteFile (disk svc1) filePath\<rparr> else svc1
                | None \<Rightarrow> svc1)
             else svc1)
          else (Some (itemValue memItem), svc)
      | None \<Rightarrow>
          if persistentCacheEnabled svc then
            (case getFilePath svc (hashKey svc key) of
               Some filePath \<Rightarrow>
                 if fileExists (disk svc) filePath then
                   (case readJsonFile (disk svc) filePath of
                      Inl e \<Rightarrow> (None, svc\<lparr>disk := tryDeleteFile (disk svc) filePath\<rparr>)
                    | Inr None \<Rightarrow> (None, svc)
                    | Inr (Some fileCacheItem) \<Rightarrow>
                        if stale fileCacheItem now then
                          (case deleteFile (disk svc) filePath of
                             Inr d \<Rightarrow> (None, svc\<lparr>disk := d\<rparr>)
                           | Inl e \<Rightarrow>
                               (None, svc\<lparr>disk := tryDeleteFile (disk svc) filePath\<rparr>))
                        else (Some (itemValue fileCacheItem),
                              svc\<lparr>store := (store svc)(fullKey \<mapsto> fileCacheItem)\<rparr>))
                 else (None, svc)
             | None \<Rightarrow> (None, svc))
          else (None, svc))"

text \<open>
  The first block of \<^verbatim>\<open>set\<close>: the entry with its expiry. For a positive time to live the
  block also writes a debug line, whose text holds
  \<^verbatim>\<open>new Date(cacheItem.expiry).toISOString()\<close>. The text is built whatever the log level,
  and \<^verbatim>\<open>toISOString\<close> throws a \<^verbatim>\<open>RangeError\<close> for an instant beyond the range of \<^verbatim>\<open>Date\<close>,
  which ends 8.64e15 milliseconds after the epoch. The error leaves \<^verbatim>\<open>set\<close> before
  anything is stored.
\<close>

datatype CacheError = RangeError

definition maxDate :: nat where
  "maxDate = 8640000000000000"

definition newCacheItem :: "nat \<Rightarrow> 'v \<Rightarrow> int option \<Rightarrow> CacheError + 'v CacheItem" where
  "newCacheItem now v ttlToUse =
     (case ttlToUse of
        Some t \<Rightarrow>
          if t \<noteq> 0 \<and> t > 0 then
            (if maxDate < now + nat (t * 1000) then Inl RangeError
             else Inr \<lparr>itemValue = v, expiry = Some (now + nat (t * 1000))\<rparr>)
          else Inr \<lparr>itemValue = v, expiry = None\<rparr>
      | None \<Rightarrow> Inr \<lparr>itemValue = v, expiry = None\<rparr>)"

definition set_entry ::
  "nat \<Rightarrow> string \<Rightarrow> 'v \<Rightarrow> int option \<Rightarrow> 'v CacheService
   \<Rightarrow> CacheError + 'v CacheService" where
  "set_entry now key v ttlSeconds svc =
     (let fullKey = getFullKey svc key;
          ttlToUse = (case ttlSeconds of Some t \<Rightarrow> Some t | None \<Rightarrow> defaultTtlSeconds svc)
      in case newCacheItem now v ttlToUse of
           Inl e \<Rightarrow> Inl e
         | Inr cacheItem \<Rightarrow>
             let svc1 = svc\<lparr>store := (store svc)(fullKey \<mapsto> cacheItem)\<rparr>
             in Inr (if persistentCacheEnabled svc1 then
                       (case getFilePath svc1 (hashKey svc1 key) of
                          Some filePath \<Rightarrow>
                            (case writeJsonFile (disk svc1) filePath cacheItem of
                               Inr d \<Rightarrow> svc1\<lparr>disk := d\<rparr>
                             | Inl e \<Rightarrow> svc1)
                        | None \<Rightarrow> svc1)
                     else svc1))"


section \<open>The transcript engine\<close>

text \<open>
  The world of the parser: the transcript files it can read (a path without text is a
  file that cannot be read), the log of the reads it has made, the listing of
  \<^verbatim>\<open>listFilesRecursive\<close>, and the cache service of the namespace \<^verbatim>\<open>transcripts\<close>.
\<close>

record World =
  sourceFiles :: "string \<rightharpoonup> string"
  readLog :: "string list"
  listFilesRecursive :: "string \<Rightarrow> IoError + string list"
  cacheService :: "(TranscriptCue list) CacheService"

definition readFile :: "string \<Rightarrow> World \<Rightarrow> (IoError + string) \<times> World" where
  "readFile filePath w =
     (case sourceFiles w filePath of
        None \<Rightarrow> (Inl (IOFailure filePath), w\<lparr>readLog := readLog w @ [filePath]\<rparr>)
      | Some content \<Rightarrow> (Inr content, w\<lparr>readLog := readLog w @ [filePath]\<rparr>))"

text \<open>
  \<^verbatim>\<open>path.basename\<close> on POSIX paths: the part after the last slash, trailing slashes
  ignored.
\<close>

definition basename :: "string \<Rightarrow> string" where
  "basename filePath =
     rev (takeWhile (\<lambda>c. c \<noteq> CHR ''/'') (dropWhile (\<lambda>c. c = CHR ''/'') (rev filePath)))"

text \<open>
  \<^verbatim>\<open>parseTranscript\<close>. A cached array is truthy even when empty, so every hit returns.
  \<^verbatim>\<open>get\<close> does not throw in the model, so the \<^verbatim>\<open>catch\<close> block around it has no branch. An
  error of \<^verbatim>\<open>set\<close> is caught and logged: the cues are returned and the cache is left as
  it was. The read of the file is outside both blocks and its error leaves the function.
\<close>

definition parseTranscript ::
  "nat \<Rightarrow> string \<Rightarrow> World \<Rightarrow> (IoError + TranscriptCue list) \<times> World" where
  "parseTranscript now filePath w =
     (let cacheKey = basename filePath in
      case get now cacheKey (cacheService w) of
        (Some cachedCues, svc1) \<Rightarrow> (Inr cachedCues, w\<lparr>cacheService := svc1\<rparr>)
      | (None, svc1) \<Rightarrow>
          (case readFile filePath (w\<lparr>cacheService := svc1\<rparr>) of
             (Inl e, w2) \<Rightarrow> (Inl e, w2)
           | (Inr content, w2) \<Rightarrow>
               let stateCues = parseContent content
               in (Inr stateCues,
                   case set_entry now cacheKey stateCues None (cacheService w2) of
                     Inr svc2 \<Rightarrow> w2\<lparr>cacheService := svc2\<rparr>
                   | Inl e \<Rightarrow> w2)))"

definition getTranscriptFiles :: "string \<Rightarrow> World \<Rightarrow> string list" where
  "getTranscriptFiles dir w =
     (case listFilesRecursive w dir of
        Inl e \<Rightarrow> []
      | Inr allFiles \<Rightarrow> filter (\<lambda>file. endsWith file ''.txt'') allFiles)"

section \<open>The search engine\<close>

record CueWithContext =
  cue :: TranscriptCue
  before :: "TranscriptCue list"
  after :: "TranscriptCue list"

record TranscriptSearchConfig =
  pattern :: string
  contextLines :: "int option"

text \<open>
  The fields \<^verbatim>\<open>cues\<close> and \<^verbatim>\<open>pattern\<close> of the result carry a suffix here, the names being
  taken by the parsing state and by the request.
\<close>

record TranscriptSearchResult =
  cues_found :: "CueWithContext list"
  total :: nat
  pattern_used :: string
  contextLinesUsed :: "int option"

text \<open>\<^verbatim>\<open>Array.prototype.slice(a, b)\<close> for \<open>0 \<le> a\<close>.\<close>

definition slice :: "'a list \<Rightarrow> int \<Rightarrow> int \<Rightarrow> 'a list" where
  "slice xs a b = take (nat b - nat a) (drop (nat a) xs)"

text \<open>\<^verbatim>\<open>Math.max(0, contextLines)\<close>, the parameter defaulting to 0.\<close>

definition numContextLines :: "int option \<Rightarrow> int" where
  "numContextLines requested = max 0 (case requested of None \<Rightarrow> 0 | Some c \<Rightarrow> c)"

text \<open>The body of \<^verbatim>\<open>fileCues.forEach\<close>: the matches of one file, each with its windows.\<close>

definition matchesInFile ::
  "(TranscriptCue \<Rightarrow> bool) \<Rightarrow> int \<Rightarrow> TranscriptCue list \<Rightarrow> CueWithContext list" where
  "matchesInFile filterFn num fileCues =
     concat (map (\<lambda>index.
       if filterFn (fileCues ! index) then
         let beforeStart = max 0 (int index - num);
             afterEnd = min (int (length fileCues)) (int index + 1 + num)
         in [\<lparr>cue = fileCues ! index,
              before = slice fileCues beforeStart (int index),
              after = slice fileCues (int index + 1) afterEnd\<rparr>]
       else []) [0..<length fileCues])"

text \<open>
  The loop of \<^verbatim>\<open>_searchCuesByFilter\<close> over the files: an error of \<^verbatim>\<open>parseTranscript\<close> leaves
  the loop and the function.
\<close>

fun searchFiles ::
  "(TranscriptCue \<Rightarrow> bool) \<Rightarrow> int \<Rightarrow> nat \<Rightarrow> string list \<Rightarrow> CueWithContext list \<Rightarrow> World
   \<Rightarrow> (IoError + CueWithContext list) \<times> World" where
  "searchFiles filterFn num now [] allMatching w = (Inr allMatching, w)"
| "searchFiles filterFn num now (file # rest) allMatching w =
     (case parseTranscript now file w of
        (Inl e, w') \<Rightarrow> (Inl e, w')
      | (Inr fileCues, w') \<Rightarrow>
          searchFiles filterFn num now rest
            (allMatching @ matchesInFile filterFn num fileCues) w')"

definition searchCuesByFilter ::
  "(TranscriptCue \<Rightarrow> bool) \<Rightarrow> int option \<Rightarrow> nat \<Rightarrow> string \<Rightarrow> World
   \<Rightarrow> (IoError + CueWithContext list) \<times> World" where
  "searchCuesByFilter filterFn requested now transcriptDir w =
     searchFiles filterFn (numContextLines requested) now
       (getTranscriptFiles transcriptDir w) [] w"

text \<open>
  The pattern of a request is the source of a regular expression. Its parser is that of
  the \<^verbatim>\<open>RegExp\<close> constructor, which the model takes as the parameter \<open>parseRegExp\<close>; for a
  pattern without metacharacters it is \<open>lit\<close>.

  \<^verbatim>\<open>searchDialog\<close> builds its expression in a template literal, where the escapes are
  processed as in a string literal: the text handed to \<^verbatim>\<open>RegExp\<close> is
  \<^verbatim>\<open>^(PATTERN)(?:s*([^)]*?))?(?:s*[[^]]*?])?$\<close>, with the \<^verbatim>\<open>i\<close> flag.
\<close>

definition dialogRegex :: "re \<Rightarrow> re" where
  "dialogRegex p =
     seqs [Bol, Grp 1 p, OPTIONAL_PAREN_ANNOTATION (2 + length (groups p)),
           OPTIONAL_BRACKET_ANNOTATION, Eol]"

definition dialogFilter :: "(string \<Rightarrow> re) \<Rightarrow> string \<Rightarrow> TranscriptCue \<Rightarrow> bool" where
  "dialogFilter parseRegExp pat c =
     (case character c of
        None \<Rightarrow> False
      | Some ch \<Rightarrow> if ch = [] then False else re_test True (dialogRegex (parseRegExp pat)) ch)"

definition searchDialog ::
  "(string \<Rightarrow> re) \<Rightarrow> nat \<Rightarrow> string \<Rightarrow> TranscriptSearchConfig \<Rightarrow> World
   \<Rightarrow> (IoError + TranscriptSearchResult) \<times> World" where
  "searchDialog parseRegExp now transcriptDir config w =
     (case searchCuesByFilter (dialogFilter parseRegExp (pattern config)) (contextLines config)
             now transcriptDir w of
        (Inl e, w') \<Rightarrow> (Inl e, w')
      | (Inr matched, w') \<Rightarrow>
          (Inr \<lparr>cues_found = matched, total = length matched, pattern_used = pattern config,
                contextLinesUsed = contextLines config\<rparr>, w'))"

definition extractTextFromCue :: "TranscriptCue \<Rightarrow> string" where
  "extractTextFromCue c =
     (case character c of
        None \<Rightarrow> raw c
      | Some ch \<Rightarrow>
          if ch = [] then raw c
          else if startsWith (toUpperCase (raw c)) (toUpperCase (ch @ '':''))
          then trim (drop (length (ch @ '':'')) (raw c))
          else raw c)"

definition keywordFilter :: "(string \<Rightarrow> re) \<Rightarrow> string \<Rightarrow> TranscriptCue \<Rightarrow> bool" where
  "keywordFilter parseRegExp pat c = re_test True (parseRegExp pat) (extractTextFromCue c)"

definition searchKeyword ::
  "(string \<Rightarrow> re) \<Rightarrow> nat \<Rightarrow> string \<Rightarrow> TranscriptSearchConfig \<Rightarrow> World
   \<Rightarrow> (IoError + TranscriptSearchResult) \<times> World" where
  "searchKeyword parseRegExp now transcriptDir config w =
     (case searchCuesByFilter (keywordFilter parseRegExp (pattern config)) (contextLines config)
             now transcriptDir w of
        (Inl e, w') \<Rightarrow> (Inl e, w')
      | (Inr matched, w') \<Rightarrow>
          (Inr \<lparr>cues_found = matched, total = length matched, pattern_used = pattern config,
                contextLinesUsed = contextLines config\<rparr>, w'))"

section \<open>Example inputs\<close>

text \<open>
  Concrete services and worlds, on which the theorems are instantiated. The digest of the
  examples is the identity, which keeps the file names readable.
\<close>

definition transcriptsService :: "(TranscriptCue list) CacheService" where
  "transcriptsService =
     \<lparr>store = Map.empty, namespace = ''transcripts'', defaultTtlSeconds = Some (3600 * 24 * 7),
      persistentCacheEnabled = True, persistentCachePath = Some ''cache/transcripts'',
      hashKey = (\<lambda>key. key), disk = \<lparr>files = Map.empty, denied = {}\<rparr>\<rparr>"

definition bridgeWorld :: World where
  "bridgeWorld =
     \<lparr>sourceFiles = [''scripts/bridge.txt'' \<mapsto>
         ''RIKER: Ready.'' @ [CHR 0x0A] @ ''PICARD: Engage.'' @ [CHR 0x0A] @ ''DATA: Aye, sir.''],
      readLog = [],
      listFilesRecursive = (\<lambda>dir. Inr [''scripts/bridge.txt'']),
      cacheService = transcriptsService\<rparr>"

definition gapWorld :: World where
  "gapWorld =
     \<lparr>sourceFiles = [''scripts/a.txt'' \<mapsto> ''PICARD: Engage.'',
                     ''scripts/c.txt'' \<mapsto> ''PICARD: Make it so.''],
      readLog = [],
      listFilesRecursive =
        (\<lambda>dir. Inr [''scripts/a.txt'', ''scripts/gone.txt'', ''scripts/c.txt'']),
      cacheService = transcriptsService\<rparr>"

definition twinWorld :: World where
  "twinWorld =
     \<lparr>sourceFiles = [''tng/ep1.txt'' \<mapsto> ''PICARD: Engage.'',
                     ''ds9/ep1.txt'' \<mapsto> ''SISKO: Report.''],
      readLog = [],
      listFilesRecursive = (\<lambda>dir. Inr [''tng/ep1.txt'', ''ds9/ep1.txt'']),
      cacheService = transcriptsService\<rparr>"

definition persistedService :: "nat CacheService" where
  "persistedService =
     \<lparr>store = Map.empty, namespace = ''ns'', defaultTtlSeconds = None,
      persistentCacheEnabled = True, persistentCachePath = Some ''cache/ns'',
      hashKey = (\<lambda>key. key), disk = \<lparr>files = Map.empty, denied = {}\<rparr>\<rparr>"

definition lockedService :: "nat CacheService" where
  "lockedService =
     \<lparr>store = Map.empty, namespace = ''ns'', defaultTtlSeconds = None,
      persistentCacheEnabled = True, persistentCachePath = Some ''cache/ns'',
      hashKey = (\<lambda>key. key),
      disk = \<lparr>files = [''cache/ns/k.json'' \<mapsto> JsonItem \<lparr>itemValue = 3, expiry = None\<rparr>],
              denied = {''cache/ns/k.json''}\<rparr>\<rparr>"



section \<open>Predicates used in the proofs\<close>

text \<open>
  The invariant of an emitted cue: its text is not blank, and a cue with a speaker
  starts with the speaker and \<^verbatim>\<open>": "\<close>.
\<close>

definition cue_ok :: "TranscriptCue \<Rightarrow> bool" where
  "cue_ok q = (trim (raw q) \<noteq> [] \<and>
     (case character q of None \<Rightarrow> True | Some sp \<Rightarrow> sp \<noteq> [] \<and> startsWith (raw q) (sp @ '': '')))"

text \<open>
  Two states of the assembler after a cue-start line of speaker \<open>ch\<close>: the cue of that
  line is still in progress on top of the emitted cues \<open>base\<close>, or it has been emitted
  right after them.
\<close>

definition armed :: "TranscriptCue list \<Rightarrow> string \<Rightarrow> ParsingState \<Rightarrow> bool" where
  "armed base ch st \<longleftrightarrow>
     cues st = base \<and> pendingMovieSpeaker st = None \<and>
     (\<exists>cc. currentCue st = Some cc \<and> character cc = Some ch \<and> trim (raw cc) \<noteq> [])"

definition emitted :: "TranscriptCue list \<Rightarrow> string \<Rightarrow> ParsingState \<Rightarrow> bool" where
  "emitted base ch st \<longleftrightarrow>
     (\<exists>q ext. cues st = base @ q # ext \<and> character q = Some ch \<and>
              startsWith (raw q) (ch @ '': ''))"

section \<open>Properties of the strings\<close>

lemma trim_eq_Nil_iff: "trim s = [] \<longleftrightarrow> (\<forall>c \<in> set s. isWhiteSpace c)"
proof
  assume "trim s = []"
  then have "\<forall>x \<in> set (dropWhile isWhiteSpace s). isWhiteSpace x"
    by (simp add: trim_def dropWhile_eq_Nil_conv)
  then have "dropWhile isWhiteSpace s = []"
    using hd_dropWhile [of isWhiteSpace s] by (cases "dropWhile isWhiteSpace s") auto
  then show "\<forall>c \<in> set s. isWhiteSpace c"
    by (simp add: dropWhile_eq_Nil_conv)
next
  assume "\<forall>c \<in> set s. isWhiteSpace c"
  then have "dropWhile isWhiteSpace s = []" by (simp add: dropWhile_eq_Nil_conv)
  then show "trim s = []" unfolding trim_def by (simp del: dropWhile_eq_Nil_conv)
qed

lemma trim_append_nonempty: "trim x \<noteq> [] \<Longrightarrow> trim (x @ y) \<noteq> []"
  by (auto simp: trim_eq_Nil_iff)

lemma dropWhile_id: "xs = [] \<or> \<not> P (hd xs) \<Longrightarrow> dropWhile P xs = xs"
  by (cases xs) auto

section \<open>Properties of the matcher\<close>

text \<open>The equation of a repetition unfolds into itself, so it is applied by hand.\<close>

lemmas mt_Rep = mt.simps(10)
declare mt.simps(10) [simp del]

lemma mt_Rep_set:
  "(s', c') \<in> set (mt ic n (Rep mn mx g r) (s, c)) \<longleftrightarrow>
   (if mx = Some 0 then (s', c') = (s, c)
    else (mn = 0 \<and> (s', c') = (s, c)) \<or>
         (\<exists>s1 c1. (s1, c1) \<in> set (mt ic n r (s, clear (groups r) c)) \<and>
                  (mn \<noteq> 0 \<or> length s1 < length s) \<and>
                  (s', c') \<in> set (mt ic n (Rep (mn - 1) (map_option (\<lambda>m. m - 1) mx) g r)
                                    (s1, c1))))"
proof (cases "mx = Some 0")
  case True
  then show ?thesis by (simp add: mt_Rep)
next
  case False
  let ?f = "\<lambda>(s', c'). if mn = 0 \<and> \<not> length s' < length s then []
                     else mt ic n (Rep (mn - 1) (map_option (\<lambda>m. m - 1) mx) g r) (s', c')"
  let ?xs = "mt ic n r (s, clear (groups r) c)"
  have more: "(s', c') \<in> set (concat (map ?f ?xs)) \<longleftrightarrow>
        (\<exists>s1 c1. (s1, c1) \<in> set ?xs \<and> (mn \<noteq> 0 \<or> length s1 < length s) \<and>
                  (s', c') \<in> set (mt ic n (Rep (mn - 1) (map_option (\<lambda>m. m - 1) mx) g r)
                                    (s1, c1)))"
    by (fastforce split: if_splits)
  have "set (mt ic n (Rep mn mx g r) (s, c)) =
          (if mn \<noteq> 0 then set (concat (map ?f ?xs)) else insert (s, c) (set (concat (map ?f ?xs))))"
    using False unfolding mt_Rep [of ic n mn mx g r s c] Let_def by (simp del: set_concat)
  then show ?thesis using False more by (auto simp del: set_concat)
qed

lemma mt_suffix:
  "(s', c') \<in> set (mt ic n r (s, c)) \<Longrightarrow> \<exists>p. s = p @ s'"
proof (induction ic n r "(s, c)" arbitrary: s c s' c' rule: mt.induct)
  case (7 ic n a b)
  then obtain s1 c1 where a: "(s1, c1) \<in> set (mt ic n a (s, c))"
    and b: "(s', c') \<in> set (mt ic n b (s1, c1))" by auto
  from "7.hyps"(1) [OF a] obtain p where "s = p @ s1" by blast
  moreover from "7.hyps"(2) [OF a b] obtain p' where "s1 = p' @ s'" by blast
  ultimately show ?case by simp
next
  case (10 ic n mn mx g r s c)
  show ?case
  proof (cases "mx = Some 0")
    case True
    with "10.prems" show ?thesis by (simp add: mt_Rep)
  next
    case False
    from "10.prems" False mt_Rep_set [of s' c' ic n mn mx g r s c] consider "(s', c') = (s, c)"
      | s1 c1 where "(s1, c1) \<in> set (mt ic n r (s, clear (groups r) c))"
        "mn \<noteq> 0 \<or> length s1 < length s"
        "(s', c') \<in> set (mt ic n (Rep (mn - 1) (map_option (\<lambda>m. m - 1) mx) g r) (s1, c1))"
      by auto
    then show ?thesis
    proof cases
      case 1 then show ?thesis by simp
    next
      case 2
      from "10.hyps"(1) [OF False 2(1)] obtain p where "s = p @ s1" by blast
      moreover from 2(2) have "\<not> (mn = 0 \<and> \<not> length s1 < length s)" by auto
      from "10.hyps"(2) [OF False 2(1) _ this 2(3)] obtain p' where "s1 = p' @ s'" by blast
      ultimately show ?thesis by simp
    qed
  qed
qed (auto split: list.splits if_splits)

lemma mt_frame:
  "(s', c') \<in> set (mt ic n r (s, c)) \<Longrightarrow> k \<notin> set (groups r) \<Longrightarrow> c' k = c k"
proof (induction ic n r "(s, c)" arbitrary: s c s' c' rule: mt.induct)
  case (7 ic n a b)
  then obtain s1 c1 where a: "(s1, c1) \<in> set (mt ic n a (s, c))"
    and b: "(s', c') \<in> set (mt ic n b (s1, c1))" by auto
  from "7.hyps"(1) [OF a] "7.prems" have "c1 k = c k" by simp
  moreover from "7.hyps"(2) [OF a b] "7.prems" have "c' k = c1 k" by simp
  ultimately show ?case by simp
next
  case (10 ic n mn mx g r s c)
  show ?case
  proof (cases "mx = Some 0")
    case True
    with "10.prems" show ?thesis by (simp add: mt_Rep)
  next
    case False
    from "10.prems" False mt_Rep_set [of s' c' ic n mn mx g r s c] consider "(s', c') = (s, c)"
      | s1 c1 where "(s1, c1) \<in> set (mt ic n r (s, clear (groups r) c))"
        "mn \<noteq> 0 \<or> length s1 < length s"
        "(s', c') \<in> set (mt ic n (Rep (mn - 1) (map_option (\<lambda>m. m - 1) mx) g r) (s1, c1))"
      by auto
    then show ?thesis
    proof cases
      case 1 then show ?thesis by simp
    next
      case 2
      from "10.hyps"(1) [OF False 2(1)] "10.prems" have "c1 k = c k" by (simp add: clear_def)
      moreover from 2(2) have "\<not> (mn = 0 \<and> \<not> length s1 < length s)" by auto
      from "10.hyps"(2) [OF False 2(1) _ this 2(3)] "10.prems" have "c' k = c1 k" by simp
      ultimately show ?thesis by simp
    qed
  qed
qed (auto split: list.splits if_splits)


lemma groups_lit [simp]: "groups (lit s) = []"
  by (induction s) (simp_all add: lit_def)

lemma mt_SeqE:
  assumes "(s', c') \<in> set (mt ic n (Seq a b) st)"
  obtains s1 c1 where "(s1, c1) \<in> set (mt ic n a st)" "(s', c') \<in> set (mt ic n b (s1, c1))"
  using assms by auto

lemma exec_from_mt:
  "exec_from ic n r t = Some m \<Longrightarrow> \<exists>u s'. (s', m) \<in> set (mt ic n r (u, \<lambda>k. None))"
proof (induction t)
  case Nil
  show ?case
  proof (cases "mt ic n r ([], \<lambda>k. None)")
    case Nil
    with Nil.prems show ?thesis by simp
  next
    case (Cons a rest)
    with Nil.prems have "(fst a, m) \<in> set (mt ic n r ([], \<lambda>k. None))"
      by (cases a) auto
    then show ?thesis by blast
  qed
next
  case (Cons x t)
  show ?case
  proof (cases "mt ic n r (x # t, \<lambda>k. None)")
    case Nil
    with Cons show ?thesis by simp
  next
    case (Cons a rest)
    with Cons.prems have "(fst a, m) \<in> set (mt ic n r (x # t, \<lambda>k. None))"
      by (cases a) auto
    then show ?thesis by blast
  qed
qed

lemma mt_upper_head:
  "(s', c') \<in> set (mt False n (Cls False [CRange CHR ''A'' CHR ''Z'']) (s, c)) \<Longrightarrow>
   \<exists>x. s = x # s' \<and> in_range CHR ''A'' CHR ''Z'' x"
  by (auto split: list.splits if_splits)

lemma speaker_tag_capture:
  assumes "(s', c') \<in> set (mt False n (Grp 1 (SPEAKER_TAG_PATTERN 2)) (s, c))"
  shows "\<exists>x xs. c' 1 = Some (x # xs) \<and> in_range CHR ''A'' CHR ''Z'' x"
proof -
  from assms obtain c0 where tag: "(s', c0) \<in> set (mt False n (SPEAKER_TAG_PATTERN 2) (s, c))"
    and c': "c' = c0(1 := Some (take (length s - length s') s))"
    by auto
  from tag [unfolded SPEAKER_TAG_PATTERN_def SPEAKER_BASE_NAME_def] obtain sb cb where
    base: "(sb, cb) \<in> set (mt False n (Seq (Cls False [CRange CHR ''A'' CHR ''Z''])
                                         (star SPEAKER_CORE_CHARSET)) (s, c))"
    and rest: "(s', c0) \<in> set (mt False n
        (Seq (OPTIONAL_PAREN_ANNOTATION 2) OPTIONAL_BRACKET_ANNOTATION) (sb, cb))"
    by (rule mt_SeqE)
  from base obtain sa ca where
    up: "(sa, ca) \<in> set (mt False n (Cls False [CRange CHR ''A'' CHR ''Z'']) (s, c))"
    and st: "(sb, cb) \<in> set (mt False n (star SPEAKER_CORE_CHARSET) (sa, ca))"
    by (rule mt_SeqE)
  from mt_upper_head [OF up] obtain x where x: "s = x # sa" "in_range CHR ''A'' CHR ''Z'' x"
    by blast
  from mt_suffix [OF st] obtain p where "sa = p @ sb" by blast
  moreover from mt_suffix [OF rest] obtain p' where "sb = p' @ s'" by blast
  ultimately have "length s' \<le> length sa" by simp
  with x have "take (length s - length s') s = x # take (length sa - length s') sa"
    by (simp add: Suc_diff_le)
  with c' x show ?thesis by simp
qed

lemma cue_start_group1:
  assumes "(s', c') \<in> set (mt False n CUE_START (s, \<lambda>k. None))"
  shows "c' 1 = None \<or> (\<exists>x xs. c' 1 = Some (x # xs) \<and> in_range CHR ''A'' CHR ''Z'' x)"
proof -
  let ?aside = "opt (seqs [Lit CHR ''('', lazy_star (Cls True [CChar CHR '')'']), Lit CHR '')'',
                          star ws])"
  let ?tail = "Seq (star ws) (Seq (Lit CHR '':'') Eps)"
  let ?A1 = "Seq ?aside (Seq (Grp 1 (SPEAKER_TAG_PATTERN 2)) ?tail)"
  let ?A2 = "seqs [Lit CHR ''('', Grp 3 (lazy_star (Cls True [CChar CHR '')''])), Lit CHR '')'']"
  let ?A3 = "seqs [Lit CHR ''['', Grp 4 (lazy_star Dot), Lit CHR '']'']"
  let ?A4 = "Grp 5 (Seq (alts [lit ''Stardate'', lit (''Captain'' @ [CHR 0x27] @ ''s log''),
                           lit ''Original Airdate''])
                    (Lit CHR '':''))"
  have cs: "CUE_START = Seq Bol (Seq (star ws) (Seq (Alt ?A1 (Alt ?A2 (Alt ?A3 ?A4))) Eps))"
    by (simp add: CUE_START_def seqs_def)
  from assms [unfolded cs] obtain s1 c1 where
    b: "(s1, c1) \<in> set (mt False n Bol (s, \<lambda>k. None))"
    and r1: "(s', c') \<in> set (mt False n
        (Seq (star ws) (Seq (Alt ?A1 (Alt ?A2 (Alt ?A3 ?A4))) Eps)) (s1, c1))"
    by (rule mt_SeqE)
  from b have c1: "c1 = (\<lambda>k. None)" by (simp split: if_splits)
  from r1 obtain s2 c2 where
    pre: "(s2, c2) \<in> set (mt False n (star ws) (s1, c1))"
    and r2: "(s', c') \<in> set (mt False n (Seq (Alt ?A1 (Alt ?A2 (Alt ?A3 ?A4))) Eps) (s2, c2))"
    by (rule mt_SeqE)
  from r2 obtain s3 c3 where
    alt0: "(s3, c3) \<in> set (mt False n (Alt ?A1 (Alt ?A2 (Alt ?A3 ?A4))) (s2, c2))"
    and e: "(s', c') \<in> set (mt False n Eps (s3, c3))"
    by (rule mt_SeqE)
  from e alt0 have alt: "(s', c') \<in> set (mt False n (Alt ?A1 (Alt ?A2 (Alt ?A3 ?A4))) (s2, c2))"
    by simp
  from mt_frame [OF pre, of 1] c1 have c2: "c2 1 = None" by (simp add: star_def ws_def)
  from alt consider
      (a1) "(s', c') \<in> set (mt False n ?A1 (s2, c2))"
    | (a2) "(s', c') \<in> set (mt False n ?A2 (s2, c2))"
    | (a3) "(s', c') \<in> set (mt False n ?A3 (s2, c2))"
    | (a4) "(s', c') \<in> set (mt False n ?A4 (s2, c2))"
    unfolding mt.simps(8) set_append Un_iff by blast
  then show ?thesis
  proof cases
    case a1
    then obtain s5 c5 where
      "(s', c') \<in> set (mt False n (Seq (Grp 1 (SPEAKER_TAG_PATTERN 2)) ?tail) (s5, c5))"
      by (rule mt_SeqE)
    then obtain s4 c4 where
      g: "(s4, c4) \<in> set (mt False n (Grp 1 (SPEAKER_TAG_PATTERN 2)) (s5, c5))"
      and t: "(s', c') \<in> set (mt False n ?tail (s4, c4))"
      by (rule mt_SeqE)
    from mt_frame [OF t, of 1] have "c' 1 = c4 1" by (simp add: star_def ws_def)
    with speaker_tag_capture [OF g] show ?thesis by simp
  next
    case a2
    from mt_frame [OF a2, of 1] c2 show ?thesis
      by (simp add: seqs_def lazy_star_def)
  next
    case a3
    from mt_frame [OF a3, of 1] c2 show ?thesis
      by (simp add: seqs_def lazy_star_def)
  next
    case a4
    from mt_frame [OF a4, of 1] c2 show ?thesis by simp
  qed
qed

lemma cue_start_capture_nonblank:
  assumes "re_exec False CUE_START t = Some m" and "m 1 = Some S"
  shows "S \<noteq> [] \<and> trim S \<noteq> []"
proof -
  from assms(1) obtain u s' where "(s', m) \<in> set (mt False (length t) CUE_START (u, \<lambda>k. None))"
    unfolding re_exec_def by (blast dest: exec_from_mt)
  from cue_start_group1 [OF this] assms(2) obtain x xs where
    S: "S = x # xs" and x: "in_range CHR ''A'' CHR ''Z'' x" by auto
  from x have "\<not> isWhiteSpace x" by (auto simp: in_range_def isWhiteSpace_def)
  with S show ?thesis by (auto simp: trim_def)
qed

text \<open>
  Group 1 takes part in every match of the scene-header and of the movie-speaker
  pattern, so \<open>processLine\<close> reads a group that is set.
\<close>

lemma mt_Grp_set:
  "(s', c') \<in> set (mt ic n (Grp k r) (s, c)) \<Longrightarrow> c' k \<noteq> None"
  by auto

lemma scene_header_group1:
  assumes "re_exec False SCENE_HEADER t = Some m"
  shows "m 1 \<noteq> None"
proof -
  let ?tail = "Seq (plus ws) (Seq (plus digit) (Seq (star ws) (Seq Eol Eps)))"
  have eq: "SCENE_HEADER = Seq Bol (Seq (star ws) (Seq (plus digit) (Seq (plus ws)
         (Seq (Grp 1 (lazy_plus Dot)) ?tail))))"
    by (simp add: SCENE_HEADER_def seqs_def)
  from assms obtain u s' where
    "(s', m) \<in> set (mt False (length t) SCENE_HEADER (u, \<lambda>k. None))"
    unfolding re_exec_def by (blast dest: exec_from_mt)
  from this [unfolded eq] obtain s1 c1 where
    "(s', m) \<in> set (mt False (length t) (Seq (star ws) (Seq (plus digit) (Seq (plus ws)
         (Seq (Grp 1 (lazy_plus Dot)) ?tail)))) (s1, c1))"
    by (rule mt_SeqE)
  then obtain s2 c2 where
    "(s', m) \<in> set (mt False (length t) (Seq (plus digit) (Seq (plus ws)
         (Seq (Grp 1 (lazy_plus Dot)) ?tail))) (s2, c2))"
    by (rule mt_SeqE)
  then obtain s3 c3 where
    "(s', m) \<in> set (mt False (length t) (Seq (plus ws)
         (Seq (Grp 1 (lazy_plus Dot)) ?tail)) (s3, c3))"
    by (rule mt_SeqE)
  then obtain s4 c4 where
    "(s', m) \<in> set (mt False (length t) (Seq (Grp 1 (lazy_plus Dot)) ?tail) (s4, c4))"
    by (rule mt_SeqE)
  then obtain s5 c5 where
    g: "(s5, c5) \<in> set (mt False (length t) (Grp 1 (lazy_plus Dot)) (s4, c4))"
    and r: "(s', m) \<in> set (mt False (length t) ?tail (s5, c5))"
    by (rule mt_SeqE)
  from mt_frame [OF r, of 1] have "m 1 = c5 1"
    by (simp add: plus_def star_def ws_def digit_def)
  with mt_Grp_set [OF g] show ?thesis by simp
qed

lemma movie_speaker_group1:
  assumes "re_exec False MOVIE_SPEAKER t = Some m"
  shows "m 1 \<noteq> None"
proof -
  let ?name = "seqs [
         Cls False [CRange CHR ''A'' CHR ''Z''],
         star (Cls False [CRange CHR ''A'' CHR ''Z'', CRange CHR ''0'' CHR ''9'', CSpace,
                          CChar CHR 0x27, CChar CHR ''.'']),
         opt (seqs [Lit CHR ''('',
                    plus (Cls False [CRange CHR ''A'' CHR ''Z'', CSpace, CChar CHR ''.'']),
                    Lit CHR '')'']),
         opt (seqs [Lit CHR 0x27, Lit CHR ''S'', ws, lit ''VOICE''])]"
  let ?tail = "Seq (star ws) (Seq Eol Eps)"
  have eq: "MOVIE_SPEAKER = Seq Bol (Seq (Rep 10 None True ws) (Seq (Grp 1 ?name) ?tail))"
    by (simp add: MOVIE_SPEAKER_def seqs_def)
  from assms obtain u s' where
    "(s', m) \<in> set (mt False (length t) MOVIE_SPEAKER (u, \<lambda>k. None))"
    unfolding re_exec_def by (blast dest: exec_from_mt)
  from this [unfolded eq] obtain s1 c1 where
    "(s', m) \<in> set (mt False (length t) (Seq (Rep 10 None True ws) (Seq (Grp 1 ?name) ?tail))
        (s1, c1))"
    by (rule mt_SeqE)
  then obtain s2 c2 where
    "(s', m) \<in> set (mt False (length t) (Seq (Grp 1 ?name) ?tail) (s2, c2))"
    by (rule mt_SeqE)
  then obtain s3 c3 where
    g: "(s3, c3) \<in> set (mt False (length t) (Grp 1 ?name) (s2, c2))"
    and r: "(s', m) \<in> set (mt False (length t) ?tail (s3, c3))"
    by (rule mt_SeqE)
  from mt_frame [OF r, of 1] have "m 1 = c3 1" by (simp add: star_def ws_def)
  with mt_Grp_set [OF g] show ?thesis by simp
qed

lemma classifyLine_groups:
  "classifyLine l t \<noteq> SceneHeaderLine None \<and> classifyLine l t \<noteq> MovieSpeakerLine None"
  using scene_header_group1 movie_speaker_group1
  by (auto simp: classifyLine_def split: option.splits)

section \<open>Properties of the parser\<close>

lemma characterToUse_nonempty: "characterToUse cc = Some ch \<Longrightarrow> ch \<noteq> []"
  by (auto simp: characterToUse_def split: option.splits if_splits)

lemma dialogueCue_ok: "ch \<noteq> [] \<Longrightarrow> trim ch \<noteq> [] \<Longrightarrow> cue_ok (dialogueCue ch t)"
  by (simp add: dialogueCue_def cue_ok_def Let_def startsWith_def trim_append_nonempty)

lemma pushCue_cues:
  "cues (pushCue q st) = cues st @ (if trim (raw q) \<noteq> [] then [q] else [])"
  by (simp add: pushCue_def)


lemma trim_idem: "trim (trim s) = trim s"
proof -
  define d where "d = dropWhile isWhiteSpace s"
  define e where "e = dropWhile isWhiteSpace (rev d)"
  have t: "trim s = rev e" by (simp add: trim_def d_def e_def)
  have hd_d: "d = [] \<or> \<not> isWhiteSpace (hd d)"
    unfolding d_def using hd_dropWhile [of isWhiteSpace s] by auto
  have hd_e: "e = [] \<or> \<not> isWhiteSpace (hd e)"
    unfolding e_def using hd_dropWhile [of isWhiteSpace "rev d"] by auto
  obtain p where p: "rev d = p @ e"
    unfolding e_def by (metis takeWhile_dropWhile_id)
  then have d: "d = rev e @ rev p" by (metis rev_append rev_rev_ident)
  have "rev e = [] \<or> \<not> isWhiteSpace (hd (rev e))"
  proof (cases "rev e")
    case Nil then show ?thesis by simp
  next
    case (Cons a as)
    with d have "hd d = a" by simp
    moreover from Cons d have "d \<noteq> []" by simp
    ultimately show ?thesis using hd_d Cons by simp
  qed
  then have "dropWhile isWhiteSpace (rev e) = rev e" by (rule dropWhile_id)
  moreover have "dropWhile isWhiteSpace e = e" using hd_e by (rule dropWhile_id)
  ultimately have "trim (rev e) = rev e" by (simp add: trim_def)
  with t show ?thesis by simp
qed

lemma characterToUse_trim: "characterToUse cc = Some ch \<Longrightarrow> trim ch \<noteq> []"
  by (auto simp: characterToUse_def trim_idem split: option.splits if_splits)

lemma descriptionCue_no_character:
  "descriptionCue ctx t = (q, b) \<Longrightarrow> character q = None"
  by (auto simp: descriptionCue_def Let_def split: option.splits if_splits)

lemma finalize_cues:
  "\<exists>ext. cues (finalizeAndAddCue st) = cues st @ ext \<and> (\<forall>q \<in> set ext. cue_ok q)"
proof (cases "currentCue st")
  case None
  then show ?thesis by (simp add: finalizeAndAddCue_def)
next
  case (Some cc)
  show ?thesis
  proof (cases "raw cc \<noteq> [] \<and> trim (raw cc) \<noteq> []")
    case False
    with Some show ?thesis by (auto simp add: finalizeAndAddCue_def)
  next
    case True
    show ?thesis
    proof (cases "characterToUse cc")
      case (Some ch)
      then have "cue_ok (dialogueCue ch (strippedRawText cc))"
        by (simp add: dialogueCue_ok characterToUse_nonempty characterToUse_trim)
      with Some True \<open>currentCue st = Some cc\<close> show ?thesis
        by (simp add: finalizeAndAddCue_def pushCue_cues)
    next
      case None
      obtain q b where qb: "descriptionCue (currentSceneContext st) (strippedRawText cc) = (q, b)"
        by (cases "descriptionCue (currentSceneContext st) (strippedRawText cc)")
      then have "character q = None" by (rule descriptionCue_no_character)
      then have "trim (raw q) \<noteq> [] \<Longrightarrow> cue_ok q" by (simp add: cue_ok_def)
      with None True qb \<open>currentCue st = Some cc\<close> show ?thesis
        by (simp add: finalizeAndAddCue_def pushCue_cues)
    qed
  qed
qed

lemma processLine_cues:
  "\<exists>ext. cues (processLine l t st) = cues st @ ext \<and> (\<forall>q \<in> set ext. cue_ok q)"
proof -
  from finalize_cues [of st] obtain ext where
    ext: "cues (finalizeAndAddCue st) = cues st @ ext" "\<forall>q \<in> set ext. cue_ok q" by blast
  show ?thesis
  proof (cases "classifyLine l t")
    case ContinuationLine
    show ?thesis
    proof (cases "truthy (pendingMovieSpeaker st)")
      case True
      with ContinuationLine ext show ?thesis by (simp add: processLine_def)
    next
      case False
      with ContinuationLine ext show ?thesis
        by (cases "currentCue st") (simp_all add: processLine_def)
    qed
  qed (use ext in \<open>simp_all add: processLine_def\<close>)
qed

lemma processLines_cues:
  "\<exists>ext. cues (processLines ls st) = cues st @ ext \<and> (\<forall>q \<in> set ext. cue_ok q)"
proof (induction ls arbitrary: st)
  case Nil
  show ?case by simp
next
  case (Cons l ls)
  from processLine_cues [of l "trim l" st] obtain e1 where
    e1: "cues (processLine l (trim l) st) = cues st @ e1" "\<forall>q \<in> set e1. cue_ok q" by blast
  from Cons.IH [of "processLine l (trim l) st"] obtain e2 where
    e2: "cues (processLines ls (processLine l (trim l) st)) = cues (processLine l (trim l) st) @ e2"
      "\<forall>q \<in> set e2. cue_ok q" by blast
  from e1 e2 have "cues (processLines (l # ls) st) = cues st @ (e1 @ e2) \<and> (\<forall>q \<in> set (e1 @ e2). cue_ok q)"
    by auto
  then show ?case by blast
qed

lemma parseContent_cue_ok: "q \<in> set (parseContent content) \<Longrightarrow> cue_ok q"
proof -
  assume q: "q \<in> set (parseContent content)"
  let ?st = "processLines (split_nl content) initialState"
  from processLines_cues [of "split_nl content" initialState] obtain e1 where
    e1: "cues ?st = e1" "\<forall>q \<in> set e1. cue_ok q" by (auto simp: initialState_def)
  from finalize_cues [of ?st] obtain e2 where
    e2: "cues (finalizeAndAddCue ?st) = cues ?st @ e2" "\<forall>q \<in> set e2. cue_ok q" by blast
  from q e1 e2 show "cue_ok q" by (auto simp: parseContent_def)
qed

text \<open>
  C8 (cue invariant). Whatever the text of the file, every cue of the emitted sequence
  has a text that is neither empty nor blank, and a cue whose speaker is set has a text
  that begins with that speaker followed by a colon and a space.
\<close>

theorem cue_invariant:
  "q \<in> set (parseContent content) \<Longrightarrow>
     raw q \<noteq> [] \<and> trim (raw q) \<noteq> [] \<and>
     (\<forall>sp. character q = Some sp \<longrightarrow> startsWith (raw q) (sp @ '': ''))"
  by (drule parseContent_cue_ok) (auto simp: cue_ok_def trim_def)

theorem cue_invariant_witness:
  "\<lparr>raw = ''SULU: Aye, sir.'', character = Some ''SULU''\<rparr> \<in> set (parseContent ''SULU: Aye, sir.'')
   \<and> trim ''SULU: Aye, sir.'' \<noteq> [] \<and> startsWith ''SULU: Aye, sir.'' (''SULU'' @ '': '')"
proof -
  have m: "parseContent ''SULU: Aye, sir.'' = [\<lparr>raw = ''SULU: Aye, sir.'', character = Some ''SULU''\<rparr>]"
    by code_simp
  then have "\<lparr>raw = ''SULU: Aye, sir.'', character = Some ''SULU''\<rparr> \<in> set (parseContent ''SULU: Aye, sir.'')"
    by simp
  from this cue_invariant [OF this] show ?thesis by simp
qed

lemma trim_nonempty_raw: "trim s \<noteq> [] \<Longrightarrow> s \<noteq> []"
  by (auto simp: trim_def)

lemma finalize_armed:
  assumes "armed base ch st" and ch: "trim ch = ch" "ch \<noteq> []"
  shows "emitted base ch (finalizeAndAddCue st)"
proof -
  from assms obtain cc where cc: "currentCue st = Some cc" "character cc = Some ch"
    "trim (raw cc) \<noteq> []" and base: "cues st = base" by (auto simp: armed_def)
  from cc(2) ch have ctu: "characterToUse cc = Some ch" by (simp add: characterToUse_def)
  let ?q = "dialogueCue ch (strippedRawText cc)"
  from ch have ok: "cue_ok ?q" by (simp add: dialogueCue_ok)
  then have "trim (raw ?q) \<noteq> []" by (simp add: cue_ok_def)
  with cc ctu base have "cues (finalizeAndAddCue st) = base @ [?q]"
    by (simp add: finalizeAndAddCue_def pushCue_cues trim_nonempty_raw)
  moreover have "character ?q = Some ch" by (simp add: dialogueCue_def Let_def)
  moreover from ok this have "startsWith (raw ?q) (ch @ '': '')" by (simp add: cue_ok_def)
  ultimately show ?thesis unfolding emitted_def by auto
qed

lemma emitted_extend:
  "emitted base ch st \<Longrightarrow> cues st' = cues st @ ext \<Longrightarrow> emitted base ch st'"
  by (auto simp: emitted_def)

lemma finalize_emitted: "emitted base ch st \<Longrightarrow> emitted base ch (finalizeAndAddCue st)"
  using finalize_cues [of st] by (auto intro: emitted_extend)

lemma processLine_emitted: "emitted base ch st \<Longrightarrow> emitted base ch (processLine l t st)"
  using processLine_cues [of l t st] by (auto intro: emitted_extend)

lemma processLine_armed:
  assumes a: "armed base ch st" and ch: "trim ch = ch" "ch \<noteq> []"
  shows "armed base ch (processLine l t st) \<or> emitted base ch (processLine l t st)"
proof -
  have fin: "emitted base ch (finalizeAndAddCue st)" using a ch by (rule finalize_armed)
  have upd: "\<And>st'. cues st' = cues (finalizeAndAddCue st) \<Longrightarrow> emitted base ch st'"
    using fin by (auto intro: emitted_extend [where ext = "[]"])
  show ?thesis
  proof (cases "classifyLine l t")
    case ContinuationLine
    from a obtain cc where cc: "currentCue st = Some cc" "character cc = Some ch"
      "trim (raw cc) \<noteq> []" and rest: "cues st = base" "pendingMovieSpeaker st = None"
      by (auto simp: armed_def)
    with ContinuationLine have "armed base ch (processLine l t st)"
      by (simp add: processLine_def truthy_def armed_def trim_append_nonempty)
    then show ?thesis ..
  qed (rule disjI2, rule upd, simp add: processLine_def)+
qed

lemma processLines_emitted:
  "emitted base ch st \<Longrightarrow> emitted base ch (processLines ls st)"
  by (induction ls arbitrary: st) (simp_all add: processLine_emitted)

lemma processLines_armed:
  assumes ch: "trim ch = ch" "ch \<noteq> []"
  shows "armed base ch st \<Longrightarrow> emitted base ch (finalizeAndAddCue (processLines ls st))"
proof (induction ls arbitrary: st)
  case Nil
  then show ?case using ch by (simp add: finalize_armed)
next
  case (Cons l ls)
  from processLine_armed [OF Cons.prems ch, of l "trim l"] show ?case
  proof
    assume "armed base ch (processLine l (trim l) st)"
    then show ?thesis using Cons.IH by simp
  next
    assume "emitted base ch (processLine l (trim l) st)"
    then show ?thesis by (simp add: processLines_emitted finalize_emitted)
  qed
qed

lemma processLines_append:
  "processLines (xs @ ys) st = processLines ys (processLines xs st)"
  by (induction xs arbitrary: st) simp_all

lemma classify_cue_start:
  assumes "classifyLine l t = CueStartLine (Some S)"
  shows "S \<noteq> [] \<and> trim S \<noteq> [] \<and> t \<noteq> []"
proof -
  from assms obtain m where "re_exec False CUE_START t = Some m" "m 1 = Some S" and t: "t \<noteq> []"
    by (auto simp: classifyLine_def split: if_splits option.splits)
  with cue_start_capture_nonblank show ?thesis by blast
qed

text \<open>
  C1 (speaker of a cue-start line). Let a line be classified as a cue start whose
  speaker group captured \<open>S\<close>, after any lines \<open>pre\<close> and before any lines \<open>post\<close>. The
  cues emitted up to and including the step of that line are kept, and the next cue of
  the final sequence, which is the cue of that line, has the speaker \<open>trim S\<close> and a
  text that starts with \<open>trim S\<close> followed by a colon and a space.
\<close>

theorem cue_start_speaker_emitted:
  assumes "classifyLine l (trim l) = CueStartLine (Some S)"
  shows "let before = cues (processLines (pre @ [l]) st0);
             out = cues (finalizeAndAddCue (processLines (pre @ [l] @ post) st0))
         in length before < length out \<and> take (length before) out = before \<and>
            character (out ! length before) = Some (trim S) \<and>
            startsWith (raw (out ! length before)) (trim S @ '': '')"
proof -
  let ?st1 = "processLines pre st0"
  let ?st2 = "processLine l (trim l) ?st1"
  from classify_cue_start [OF assms] have S: "S \<noteq> []" "trim S \<noteq> []" "trim l \<noteq> []" by auto
  have "trim (trim l) \<noteq> []" using S(3) by (simp add: trim_idem)
  with assms S have "armed (cues ?st2) (trim S) ?st2"
    by (simp add: processLine_def armed_def truthy_def)
  moreover have "trim (trim S) = trim S" by (rule trim_idem)
  ultimately have "emitted (cues ?st2) (trim S) (finalizeAndAddCue (processLines post ?st2))"
    using S(2) by (intro processLines_armed)
  then obtain q ext where
    out: "cues (finalizeAndAddCue (processLines post ?st2)) = cues ?st2 @ q # ext"
    and q: "character q = Some (trim S)" "startsWith (raw q) (trim S @ '': '')"
    by (auto simp: emitted_def)
  have "processLines (pre @ [l]) st0 = ?st2" by (simp add: processLines_append)
  moreover have "processLines (pre @ [l] @ post) st0 = processLines post ?st2"
    by (simp add: processLines_append)
  ultimately show ?thesis using out q by (simp add: Let_def nth_append)
qed

theorem cue_start_speaker_emitted_witness:
  "classifyLine ''LA FORGE: Aye, sir.'' (trim ''LA FORGE: Aye, sir.'') = CueStartLine (Some ''LA FORGE'')
   \<and> (let before = cues (processLines ([''Engage.''] @ [''LA FORGE: Aye, sir.'']) initialState);
           out = cues (finalizeAndAddCue
                   (processLines ([''Engage.''] @ [''LA FORGE: Aye, sir.''] @ [''Warp one.''])
                      initialState))
       in length before < length out \<and> take (length before) out = before \<and>
          character (out ! length before) = Some (trim ''LA FORGE'') \<and>
          startsWith (raw (out ! length before)) (trim ''LA FORGE'' @ '': ''))"
proof -
  have h: "classifyLine ''LA FORGE: Aye, sir.'' (trim ''LA FORGE: Aye, sir.'')
             = CueStartLine (Some ''LA FORGE'')"
    by code_simp
  from h cue_start_speaker_emitted [OF h, of "[''Engage.'']" initialState "[''Warp one.'']"]
  show ?thesis by blast
qed

text \<open>
  C3 (scene-context propagation). The text made of the three lines
  \<^verbatim>\<open>10  BRIDGE  10\<close>, \<^verbatim>\<open>The bridge crew watches.\<close> and \<^verbatim>\<open>PICARD: Engage.\<close> parses to exactly
  two cues, in this order: a cue without speaker whose text is
  \<^verbatim>\<open>[BRIDGE] The bridge crew watches.\<close>, then a cue of speaker \<^verbatim>\<open>PICARD\<close> whose text is
  \<^verbatim>\<open>PICARD: Engage.\<close>
\<close>

theorem scene_context_propagation:
  "parseContent (''10  BRIDGE  10'' @ [CHR 0x0A] @ ''The bridge crew watches.'' @ [CHR 0x0A]
                 @ ''PICARD: Engage.'')
   = [\<lparr>raw = ''[BRIDGE] The bridge crew watches.'', character = None\<rparr>,
      \<lparr>raw = ''PICARD: Engage.'', character = Some ''PICARD''\<rparr>]"
  by code_simp

section \<open>Properties of the cache service\<close>

lemma newCacheItem_ttl:
  "0 < ttl \<Longrightarrow> now + nat (ttl * 1000) \<le> maxDate \<Longrightarrow>
   newCacheItem now v (Some ttl) = Inr \<lparr>itemValue = v, expiry = Some (now + nat (ttl * 1000))\<rparr>"
  by (simp add: newCacheItem_def)

lemma newCacheItem_value: "newCacheItem now v t = Inr item \<Longrightarrow> itemValue item = v"
  by (auto simp: newCacheItem_def split: option.splits if_splits)

lemma set_entry_Inr:
  assumes "set_entry now key v ttl svc = Inr svc1"
  shows "namespace svc1 = namespace svc"
    and "persistentCacheEnabled svc1 = persistentCacheEnabled svc"
    and "persistentCachePath svc1 = persistentCachePath svc"
    and "hashKey svc1 = hashKey svc"
    and "denied (disk svc1) = denied (disk svc)"
    and "\<exists>item. newCacheItem now v (case ttl of Some t \<Rightarrow> Some t | None \<Rightarrow> defaultTtlSeconds svc)
                  = Inr item \<and> store svc1 (getFullKey svc key) = Some item"
    and "filePath \<in> denied (disk svc) \<Longrightarrow> files (disk svc1) filePath = files (disk svc) filePath"
  using assms
  by (auto simp: set_entry_def Let_def writeJsonFile_def split: sum.splits option.splits if_splits)

lemma set_entry_keys:
  assumes "set_entry now key v ttl svc = Inr svc1"
  shows "getFullKey svc1 k = getFullKey svc k" and "getFilePath svc1 h = getFilePath svc h"
  using set_entry_Inr(1,3) [OF assms] by (simp_all add: getFullKey_def getFilePath_def)

text \<open>Beyond the range of \<^verbatim>\<open>Date\<close> a positive time to live makes \<^verbatim>\<open>set\<close> throw; nothing is stored.\<close>

lemma set_entry_range_error:
  "0 < ttl \<Longrightarrow> maxDate < now + nat (ttl * 1000) \<Longrightarrow>
   set_entry now key v (Some ttl) svc = Inl RangeError"
  by (simp add: set_entry_def newCacheItem_def Let_def)

lemma get_memory_fresh:
  "store svc (getFullKey svc key) = Some item \<Longrightarrow> \<not> stale item now \<Longrightarrow>
   get now key svc = (Some (itemValue item), svc)"
  by (simp add: get_def Let_def)

lemma tryDeleteFile_removed:
  "filePath \<notin> denied d \<Longrightarrow> files (tryDeleteFile d filePath) filePath = None"
  by (simp add: tryDeleteFile_def deleteFile_def)

lemma tryDeleteFile_denied:
  "q \<in> denied d \<Longrightarrow> files (tryDeleteFile d filePath) q = files d q"
  by (auto simp: tryDeleteFile_def deleteFile_def)

lemma get_memory_stale:
  assumes "store svc (getFullKey svc key) = Some item" and "stale item now"
  shows "fst (get now key svc) = None"
    and "store (snd (get now key svc)) (getFullKey svc key) = None"
    and "persistentCacheEnabled svc \<Longrightarrow> getFilePath svc (hashKey svc key) = Some filePath \<Longrightarrow>
         filePath \<notin> denied (disk svc) \<Longrightarrow> files (disk (snd (get now key svc))) filePath = None"
    and "q \<in> denied (disk svc) \<Longrightarrow> files (disk (snd (get now key svc))) q = files (disk svc) q"
  using assms
  by (auto simp add: get_def Let_def getFilePath_def fileExists_def tryDeleteFile_removed
      tryDeleteFile_denied split: option.splits)

text \<open>
  C4 (set, then get), as the code has it. Let the time to live \<open>ttl\<close> be positive and the
  expiry instant within the range of \<^verbatim>\<open>Date\<close>. Then \<^verbatim>\<open>set\<close> succeeds, and a \<^verbatim>\<open>get\<close> that
  directly follows it, at any reading of the clock up to the expiry instant, returns
  the value that was set. A \<^verbatim>\<open>get\<close> made once more than \<open>ttl\<close> seconds have passed since
  the \<^verbatim>\<open>set\<close> returns nothing and removes the entry from memory. When the persisted tier
  is enabled, that \<^verbatim>\<open>get\<close> leaves no file of the key on a disk that performs the
  \<^verbatim>\<open>unlink\<close>; where the disk refuses to change the file, the refusal is logged and
  swallowed, and the file of the key is what it was before the \<^verbatim>\<open>set\<close>.
\<close>

theorem set_then_get:
  assumes "0 < ttl" and "now0 + nat (ttl * 1000) \<le> maxDate"
  shows "\<exists>svc1. set_entry now0 k v (Some ttl) svc = Inr svc1 \<and>
          (now1 \<le> now0 + nat (ttl * 1000) \<longrightarrow> fst (get now1 k svc1) = Some v) \<and>
          (now0 + nat (ttl * 1000) < now2 \<longrightarrow>
             fst (get now2 k svc1) = None \<and>
             store (snd (get now2 k svc1)) (getFullKey svc k) = None \<and>
             (\<forall>filePath. persistentCacheEnabled svc \<longrightarrow>
                getFilePath svc (hashKey svc k) = Some filePath \<longrightarrow>
                (filePath \<notin> denied (disk svc) \<longrightarrow>
                   files (disk (snd (get now2 k svc1))) filePath = None) \<and>
                (filePath \<in> denied (disk svc) \<longrightarrow>
                   files (disk (snd (get now2 k svc1))) filePath = files (disk svc) filePath)))"
proof -
  let ?item = "\<lparr>itemValue = v, expiry = Some (now0 + nat (ttl * 1000))\<rparr>"
  from assms obtain svc1 where s: "set_entry now0 k v (Some ttl) svc = Inr svc1"
    by (auto simp: set_entry_def Let_def newCacheItem_def)
  note f = set_entry_Inr [OF s] and ks = set_entry_keys [OF s]
  from f(6) assms have st: "store svc1 (getFullKey svc1 k) = Some ?item"
    by (simp add: newCacheItem_ttl ks)
  have fresh: "now1 \<le> now0 + nat (ttl * 1000) \<Longrightarrow> \<not> stale ?item now1"
    by (simp add: stale_def)
  have old: "now0 + nat (ttl * 1000) < now2 \<Longrightarrow> stale ?item now2"
    using assms by (simp add: stale_def)
  have "now1 \<le> now0 + nat (ttl * 1000) \<longrightarrow> fst (get now1 k svc1) = Some v"
    using get_memory_fresh [OF st] fresh by simp
  moreover have "now0 + nat (ttl * 1000) < now2 \<longrightarrow>
             fst (get now2 k svc1) = None \<and>
             store (snd (get now2 k svc1)) (getFullKey svc k) = None \<and>
             (\<forall>filePath. persistentCacheEnabled svc \<longrightarrow>
                getFilePath svc (hashKey svc k) = Some filePath \<longrightarrow>
                (filePath \<notin> denied (disk svc) \<longrightarrow>
                   files (disk (snd (get now2 k svc1))) filePath = None) \<and>
                (filePath \<in> denied (disk svc) \<longrightarrow>
                   files (disk (snd (get now2 k svc1))) filePath = files (disk svc) filePath))"
  proof (intro impI conjI allI)
    assume "now0 + nat (ttl * 1000) < now2"
    then have o: "stale ?item now2" by (rule old)
    show "fst (get now2 k svc1) = None" using get_memory_stale(1) [OF st o] .
    show "store (snd (get now2 k svc1)) (getFullKey svc k) = None"
      using get_memory_stale(2) [OF st o] by (simp add: ks)
    fix filePath
    assume en: "persistentCacheEnabled svc"
      and fp: "getFilePath svc (hashKey svc k) = Some filePath"
    show "files (disk (snd (get now2 k svc1))) filePath = None" if "filePath \<notin> denied (disk svc)"
      using get_memory_stale(3) [OF st o, of filePath] that en fp by (simp add: f ks)
    show "files (disk (snd (get now2 k svc1))) filePath = files (disk svc) filePath"
      if "filePath \<in> denied (disk svc)"
      using get_memory_stale(4) [OF st o, of filePath] f(7) [OF that] that by (simp add: f)
  qed
  ultimately show ?thesis using s by blast
qed

theorem set_then_get_witness:
  "(0::int) < 60 \<and> 1000 + nat (60 * 1000) \<le> maxDate
   \<and> (\<exists>svc1. set_entry 1000 ''k'' 7 (Some 60) persistedService = Inr svc1
         \<and> fst (get 1000 ''k'' svc1) = Some 7
         \<and> fst (get 61001 ''k'' svc1) = None
         \<and> files (disk (snd (get 61001 ''k'' svc1))) ''cache/ns/k.json'' = None)
   \<and> (\<exists>svc1. set_entry 1000 ''k'' 7 (Some 60) lockedService = Inr svc1
         \<and> fst (get 61001 ''k'' svc1) = None
         \<and> files (disk (snd (get 61001 ''k'' svc1))) ''cache/ns/k.json''
             = files (disk lockedService) ''cache/ns/k.json'')"
proof -
  have h: "(0::int) < 60" "1000 + nat (60 * 1000) \<le> maxDate" by (simp_all add: maxDate_def)
  have p: "persistentCacheEnabled persistedService"
    "getFilePath persistedService (hashKey persistedService ''k'') = Some ''cache/ns/k.json''"
    "''cache/ns/k.json'' \<notin> denied (disk persistedService)"
    by (simp_all add: persistedService_def getFilePath_def)
  have l: "persistentCacheEnabled lockedService"
    "getFilePath lockedService (hashKey lockedService ''k'') = Some ''cache/ns/k.json''"
    "''cache/ns/k.json'' \<in> denied (disk lockedService)"
    by (simp_all add: lockedService_def getFilePath_def)
  from set_then_get [OF h, of "''k''" 7 persistedService 1000 61001] p
  have "\<exists>svc1. set_entry 1000 ''k'' 7 (Some 60) persistedService = Inr svc1
         \<and> fst (get 1000 ''k'' svc1) = Some 7
         \<and> fst (get 61001 ''k'' svc1) = None
         \<and> files (disk (snd (get 61001 ''k'' svc1))) ''cache/ns/k.json'' = None"
    by auto
  moreover from set_then_get [OF h, of "''k''" 7 lockedService 1000 61001] l
  have "\<exists>svc1. set_entry 1000 ''k'' 7 (Some 60) lockedService = Inr svc1
         \<and> fst (get 61001 ''k'' svc1) = None
         \<and> files (disk (snd (get 61001 ''k'' svc1))) ''cache/ns/k.json''
             = files (disk lockedService) ''cache/ns/k.json''"
    by auto
  ultimately show ?thesis using h by blast
qed

text \<open>
  The claim C4 as it is written has the file of the key removed whenever the persisted
  tier is enabled. On a disk that refuses to change that file, \<^verbatim>\<open>set\<close> stores the entry
  in memory, the later \<^verbatim>\<open>get\<close> returns nothing, and the file of the key is still there.
\<close>

theorem refused_unlink_keeps_file:
  "set_entry 1000 ''k'' 7 (Some 60) lockedService
     = Inr (lockedService\<lparr>store := [''ns:k'' \<mapsto> \<lparr>itemValue = 7, expiry = Some 61000\<rparr>]\<rparr>)
   \<and> persistentCacheEnabled lockedService
   \<and> fst (get 61001 ''k''
        (lockedService\<lparr>store := [''ns:k'' \<mapsto> \<lparr>itemValue = 7, expiry = Some 61000\<rparr>]\<rparr>)) = None
   \<and> files (disk (snd (get 61001 ''k''
        (lockedService\<lparr>store := [''ns:k'' \<mapsto> \<lparr>itemValue = 7, expiry = Some 61000\<rparr>]\<rparr>))))
       ''cache/ns/k.json'' = Some (JsonItem \<lparr>itemValue = 3, expiry = None\<rparr>)"
  by (simp add: lockedService_def set_entry_def newCacheItem_def maxDate_def get_def
      getFullKey_def getFilePath_def writeJsonFile_def fileExists_def tryDeleteFile_def
      deleteFile_def stale_def Let_def)







section \<open>Properties of the transcript engine and of the search\<close>

lemma get_Some_store:
  "get now key svc = (Some c, svc1) \<Longrightarrow>
   \<exists>item. store svc1 (getFullKey svc1 key) = Some item \<and> itemValue item = c"
  by (auto simp add: get_def Let_def getFullKey_def split: option.splits sum.splits if_splits)

lemma get_None_store:
  "get now key svc = (None, svc1) \<Longrightarrow> store svc1 (getFullKey svc1 key) = None"
  by (auto simp add: get_def Let_def getFullKey_def split: option.splits sum.splits if_splits)

text \<open>An entry found under the base name after a parse holds the cues of that parse.\<close>

lemma parseTranscript_cached_value:
  assumes p: "parseTranscript now0 p w0 = (Inr cs, w)"
      and c: "store (cacheService w) (getFullKey (cacheService w) (basename p)) = Some item"
  shows "itemValue item = cs"
proof (cases "get now0 (basename p) (cacheService w0)")
  case (Pair r svc1)
  show ?thesis
  proof (cases r)
    case (Some c')
    with Pair p have "c' = cs" "cacheService w = svc1"
      by (auto simp: parseTranscript_def Let_def)
    with get_Some_store [of now0 "basename p" "cacheService w0" c' svc1] Pair Some c
    show ?thesis by auto
  next
    case None
    note miss = get_None_store [of now0 "basename p" "cacheService w0" svc1]
    show ?thesis
    proof (cases "sourceFiles w0 p")
      case None
      with Pair \<open>r = None\<close> p show ?thesis
        by (simp add: parseTranscript_def Let_def readFile_def)
    next
      case (Some content)
      show ?thesis
      proof (cases "set_entry now0 (basename p) (parseContent content) None svc1")
        case (Inl e)
        with Pair \<open>r = None\<close> Some p have "cacheService w = svc1"
          by (auto simp: parseTranscript_def Let_def readFile_def)
        with miss Pair \<open>r = None\<close> c show ?thesis by simp
      next
        case (Inr svc2)
        with Pair \<open>r = None\<close> Some p have e: "cs = parseContent content" "cacheService w = svc2"
          by (auto simp: parseTranscript_def Let_def readFile_def)
        from set_entry_Inr(6) [OF Inr] obtain item' where
          "newCacheItem now0 (parseContent content) (defaultTtlSeconds svc1) = Inr item'"
          "store svc2 (getFullKey svc1 (basename p)) = Some item'" by auto
        with c e set_entry_keys(1) [OF Inr] newCacheItem_value show ?thesis by fastforce
      qed
    qed
  qed
qed

lemma parseTranscript_miss:
  assumes "get now (basename p) (cacheService w) = (None, svc1)"
      and "sourceFiles w p = Some content"
      and "set_entry now (basename p) (parseContent content) None svc1 = Inr svc2"
  shows "parseTranscript now p w =
           (Inr (parseContent content), w\<lparr>readLog := readLog w @ [p], cacheService := svc2\<rparr>)"
  using assms by (simp add: parseTranscript_def readFile_def Let_def)

lemma parseTranscript_reads:
  assumes "fst (get now (basename p) (cacheService w)) = None"
  shows "readLog (snd (parseTranscript now p w)) = readLog w @ [p]"
proof (cases "get now (basename p) (cacheService w)")
  case (Pair r svc1)
  with assms have r: "r = None" by simp
  show ?thesis
  proof (cases "sourceFiles w p")
    case None
    with Pair r show ?thesis by (simp add: parseTranscript_def readFile_def Let_def)
  next
    case (Some content)
    with Pair r show ?thesis
      by (cases "set_entry now (basename p) (parseContent content) None svc1")
         (simp_all add: parseTranscript_def readFile_def Let_def)
  qed
qed

lemma get_empty_store:
  "store svc = Map.empty \<Longrightarrow> files (disk svc) = Map.empty \<Longrightarrow> get now key svc = (None, svc)"
  by (simp add: get_def Let_def fileExists_def split: option.splits)

text \<open>What \<^verbatim>\<open>set\<close> makes of the example service, at the clock reading 0.\<close>

lemma set_entry_transcripts:
  "set_entry 0 key cs None transcriptsService =
     Inr (transcriptsService
            \<lparr>store := [''transcripts:'' @ key \<mapsto> \<lparr>itemValue = cs, expiry = Some 604800000\<rparr>],
             disk := \<lparr>files = [''cache/transcripts/'' @ key @ ''.json'' \<mapsto>
                                 JsonItem \<lparr>itemValue = cs, expiry = Some 604800000\<rparr>],
                      denied = {}\<rparr>\<rparr>)"
  by (simp add: set_entry_def newCacheItem_def maxDate_def transcriptsService_def getFullKey_def
      getFilePath_def writeJsonFile_def Let_def)

text \<open>
  C10 (the cache key is the base name). Let the parse of the path \<open>p1\<close> have returned the
  cues \<open>cs\<close>, and let \<open>p2\<close> have the same base name. While an entry is cached under that
  base name and is not past its expiry, the parse of \<open>p2\<close> returns \<open>cs\<close> and leaves the
  world as it is: the log of reads is unchanged, so the file at \<open>p2\<close> is not read,
  whatever text it holds. A path \<open>p3\<close> under whose base name \<^verbatim>\<open>get\<close> finds nothing is read.
\<close>

theorem basename_is_cache_key:
  assumes first: "parseTranscript now0 p1 w0 = (Inr cs, w)"
      and same: "basename p2 = basename p1"
      and cached: "store (cacheService w) (getFullKey (cacheService w) (basename p1)) = Some item"
      and unexpired: "\<not> stale item now"
  shows "parseTranscript now p2 w = (Inr cs, w) \<and>
         (fst (get now (basename p3) (cacheService w)) = None \<longrightarrow>
            readLog (snd (parseTranscript now p3 w)) = readLog w @ [p3])"
proof -
  from parseTranscript_cached_value [OF first cached] have "itemValue item = cs" .
  with cached unexpired get_memory_fresh [of "cacheService w" "basename p1" item now]
  have "get now (basename p1) (cacheService w) = (Some cs, cacheService w)" by simp
  with same have "parseTranscript now p2 w = (Inr cs, w)"
    by (simp add: parseTranscript_def Let_def)
  with parseTranscript_reads [of now p3 w] show ?thesis by blast
qed

theorem basename_is_cache_key_witness:
  "fst (parseTranscript 0 ''tng/ep1.txt'' twinWorld)
     = Inr [\<lparr>raw = ''PICARD: Engage.'', character = Some ''PICARD''\<rparr>]
   \<and> ''ds9/ep1.txt'' \<noteq> ''tng/ep1.txt''
   \<and> basename ''ds9/ep1.txt'' = basename ''tng/ep1.txt''
   \<and> sourceFiles twinWorld ''ds9/ep1.txt'' = Some ''SISKO: Report.''
   \<and> parseTranscript 5000 ''ds9/ep1.txt'' (snd (parseTranscript 0 ''tng/ep1.txt'' twinWorld))
       = (Inr [\<lparr>raw = ''PICARD: Engage.'', character = Some ''PICARD''\<rparr>],
          snd (parseTranscript 0 ''tng/ep1.txt'' twinWorld))
   \<and> readLog (snd (parseTranscript 5000 ''tng/ep2.txt''
                 (snd (parseTranscript 0 ''tng/ep1.txt'' twinWorld))))
       = [''tng/ep1.txt'', ''tng/ep2.txt'']"
proof -
  let ?cs = "[\<lparr>raw = ''PICARD: Engage.'', character = Some ''PICARD''\<rparr>]"
  let ?item = "\<lparr>itemValue = ?cs, expiry = Some 604800000\<rparr>"
  let ?svc2 = "transcriptsService
            \<lparr>store := [''transcripts:'' @ ''ep1.txt'' \<mapsto> ?item],
             disk := \<lparr>files = [''cache/transcripts/'' @ ''ep1.txt'' @ ''.json'' \<mapsto> JsonItem ?item],
                      denied = {}\<rparr>\<rparr>"
  let ?w = "twinWorld\<lparr>readLog := readLog twinWorld @ [''tng/ep1.txt''], cacheService := ?svc2\<rparr>"
  have pc: "parseContent ''PICARD: Engage.'' = ?cs" by code_simp
  have b1: "basename ''tng/ep1.txt'' = ''ep1.txt''" and b2: "basename ''ds9/ep1.txt'' = ''ep1.txt''"
    and b3: "basename ''tng/ep2.txt'' = ''ep2.txt''"
    by code_simp+
  have g: "get 0 (basename ''tng/ep1.txt'') (cacheService twinWorld)
             = (None, transcriptsService)"
    using get_empty_store [of transcriptsService 0 "basename ''tng/ep1.txt''"]
    by (simp add: twinWorld_def transcriptsService_def)
  have src1: "sourceFiles twinWorld ''tng/ep1.txt'' = Some ''PICARD: Engage.''"
    by (simp add: twinWorld_def)
  have se: "set_entry 0 (basename ''tng/ep1.txt'') (parseContent ''PICARD: Engage.'') None
              transcriptsService = Inr ?svc2"
    unfolding pc b1 by (rule set_entry_transcripts)
  have first: "parseTranscript 0 ''tng/ep1.txt'' twinWorld = (Inr ?cs, ?w)"
    using parseTranscript_miss [OF g src1 se] unfolding pc .
  have same: "basename ''ds9/ep1.txt'' = basename ''tng/ep1.txt''" by (simp add: b1 b2)
  have cached: "store (cacheService ?w) (getFullKey (cacheService ?w) (basename ''tng/ep1.txt''))
                  = Some ?item"
    unfolding b1 by (simp add: getFullKey_def transcriptsService_def)
  have unexpired: "\<not> stale ?item 5000" by (simp add: stale_def)
  have miss: "fst (get 5000 (basename ''tng/ep2.txt'') (cacheService ?w)) = None"
    unfolding b3
    by (simp add: get_def Let_def getFullKey_def getFilePath_def fileExists_def
          transcriptsService_def)
  have src: "sourceFiles twinWorld ''ds9/ep1.txt'' = Some ''SISKO: Report.''"
    by (simp add: twinWorld_def)
  have log: "readLog ?w = [''tng/ep1.txt'']" by (simp add: twinWorld_def)
  from basename_is_cache_key [OF first same cached unexpired, of "''tng/ep2.txt''"]
    miss first src same log
  show ?thesis by simp
qed

lemma parseTranscript_unreadable:
  assumes "fst (get now (basename f) (cacheService w)) = None" and "sourceFiles w f = None"
  shows "fst (parseTranscript now f w) = Inl (IOFailure f)"
    and "readLog (snd (parseTranscript now f w)) = readLog w @ [f]"
  using assms
  by (cases "get now (basename f) (cacheService w)";
      simp add: parseTranscript_def Let_def readFile_def)+

lemma searchFiles_append:
  "searchFiles filterFn n now (xs @ ys) acc w =
     (case searchFiles filterFn n now xs acc w of
        (Inl e, w') \<Rightarrow> (Inl e, w')
      | (Inr acc', w') \<Rightarrow> searchFiles filterFn n now ys acc' w')"
  by (induction xs arbitrary: acc w) (auto split: prod.splits sum.splits)

lemma searchFiles_filter_independent:
  "searchFiles f1 n1 now fs a1 w = (Inr r1, w1) \<Longrightarrow>
   \<exists>r2. searchFiles f2 n2 now fs a2 w = (Inr r2, w1)"
proof (induction fs arbitrary: a1 a2 w)
  case Nil
  then show ?case by simp
next
  case (Cons x fs)
  then show ?case
    by (cases "parseTranscript now x w") (auto split: sum.splits)
qed

lemma searchFiles_abort:
  assumes "fst (parseTranscript now f w) = Inl e"
  shows "searchFiles filterFn n now (f # rest) acc w = (Inl e, snd (parseTranscript now f w))"
  using assms by (cases "parseTranscript now f w") simp

lemma searchCuesByFilter_abort:
  assumes files: "getTranscriptFiles dir w = pre @ f # rest"
      and pre: "searchFiles filterFn n now pre acc0 w = (Inr acc, w1)"
      and fail: "fst (parseTranscript now f w1) = Inl e"
  shows "searchCuesByFilter filterFn' requested now dir w = (Inl e, snd (parseTranscript now f w1))"
proof -
  from searchFiles_filter_independent [OF pre] obtain r2 where
    "searchFiles filterFn' (numContextLines requested) now pre [] w = (Inr r2, w1)" by blast
  moreover have "searchFiles filterFn' (numContextLines requested) now (f # rest) r2 w1
      = (Inl e, snd (parseTranscript now f w1))"
    using fail by (rule searchFiles_abort)
  ultimately show ?thesis using files
    by (simp add: searchCuesByFilter_def searchFiles_append del: searchFiles.simps)
qed

text \<open>
  C9 (a file that cannot be read). Let the search reach the file \<open>f\<close> of the directory
  listing after the files \<open>pre\<close> were parsed without error, in the world \<open>w1\<close>, where \<open>f\<close>
  is not cached and cannot be read. Then \<^verbatim>\<open>parseTranscript\<close> returns the read error after
  one read of \<open>f\<close>, and \<^verbatim>\<open>searchDialog\<close> and \<^verbatim>\<open>searchKeyword\<close> return that error and nothing
  else: the result carries no match of the files parsed before, and the log of reads
  ends with \<open>f\<close>, so no later file is read.
\<close>

theorem unreadable_file_aborts_search:
  assumes files: "getTranscriptFiles dir w = pre @ f # rest"
      and pre: "searchFiles filterFn n now pre acc0 w = (Inr acc, w1)"
      and miss: "fst (get now (basename f) (cacheService w1)) = None"
      and unreadable: "sourceFiles w1 f = None"
  shows "fst (parseTranscript now f w1) = Inl (IOFailure f) \<and>
         readLog (snd (parseTranscript now f w1)) = readLog w1 @ [f] \<and>
         fst (searchDialog parseRegExp now dir config w) = Inl (IOFailure f) \<and>
         readLog (snd (searchDialog parseRegExp now dir config w)) = readLog w1 @ [f] \<and>
         fst (searchKeyword parseRegExp now dir config w) = Inl (IOFailure f) \<and>
         readLog (snd (searchKeyword parseRegExp now dir config w)) = readLog w1 @ [f]"
proof -
  note p = parseTranscript_unreadable [OF miss unreadable]
  note a = searchCuesByFilter_abort [OF files pre p(1)]
  from p a show ?thesis by (simp add: searchDialog_def searchKeyword_def)
qed

theorem unreadable_file_aborts_search_witness:
  "getTranscriptFiles ''scripts'' gapWorld
     = [''scripts/a.txt''] @ ''scripts/gone.txt'' # [''scripts/c.txt'']
   \<and> sourceFiles gapWorld ''scripts/gone.txt'' = None
   \<and> fst (searchDialog lit 0 ''scripts'' \<lparr>pattern = ''PICARD'', contextLines = None\<rparr> gapWorld)
       = Inl (IOFailure ''scripts/gone.txt'')
   \<and> fst (searchKeyword lit 0 ''scripts'' \<lparr>pattern = ''engage'', contextLines = None\<rparr> gapWorld)
       = Inl (IOFailure ''scripts/gone.txt'')
   \<and> readLog (snd (searchDialog lit 0 ''scripts'' \<lparr>pattern = ''PICARD'', contextLines = None\<rparr>
                     gapWorld)) = [''scripts/a.txt'', ''scripts/gone.txt'']"
proof -
  let ?cs = "[\<lparr>raw = ''PICARD: Engage.'', character = Some ''PICARD''\<rparr>]"
  let ?item = "\<lparr>itemValue = ?cs, expiry = Some 604800000\<rparr>"
  let ?svc2 = "transcriptsService
            \<lparr>store := [''transcripts:'' @ ''a.txt'' \<mapsto> ?item],
             disk := \<lparr>files = [''cache/transcripts/'' @ ''a.txt'' @ ''.json'' \<mapsto> JsonItem ?item],
                      denied = {}\<rparr>\<rparr>"
  let ?w1 = "gapWorld\<lparr>readLog := readLog gapWorld @ [''scripts/a.txt''], cacheService := ?svc2\<rparr>"
  have files: "getTranscriptFiles ''scripts'' gapWorld
                 = [''scripts/a.txt''] @ ''scripts/gone.txt'' # [''scripts/c.txt'']"
    by code_simp
  have pc: "parseContent ''PICARD: Engage.'' = ?cs" by code_simp
  have ba: "basename ''scripts/a.txt'' = ''a.txt''"
    and bg: "basename ''scripts/gone.txt'' = ''gone.txt''"
    by code_simp+
  have g: "get 0 (basename ''scripts/a.txt'') (cacheService gapWorld) = (None, transcriptsService)"
    using get_empty_store [of transcriptsService 0 "basename ''scripts/a.txt''"]
    by (simp add: gapWorld_def transcriptsService_def)
  have src1: "sourceFiles gapWorld ''scripts/a.txt'' = Some ''PICARD: Engage.''"
    by (simp add: gapWorld_def)
  have se: "set_entry 0 (basename ''scripts/a.txt'') (parseContent ''PICARD: Engage.'') None
              transcriptsService = Inr ?svc2"
    unfolding pc ba by (rule set_entry_transcripts)
  have first: "parseTranscript 0 ''scripts/a.txt'' gapWorld = (Inr ?cs, ?w1)"
    using parseTranscript_miss [OF g src1 se] unfolding pc .
  have pre: "searchFiles (\<lambda>c. False) 0 0 [''scripts/a.txt''] [] gapWorld = (Inr [], ?w1)"
    by (simp add: first matchesInFile_def)
  have miss: "fst (get 0 (basename ''scripts/gone.txt'') (cacheService ?w1)) = None"
    unfolding bg
    by (simp add: get_def Let_def getFullKey_def getFilePath_def fileExists_def
          transcriptsService_def)
  have unreadable: "sourceFiles ?w1 ''scripts/gone.txt'' = None" by (simp add: gapWorld_def)
  have src: "sourceFiles gapWorld ''scripts/gone.txt'' = None" by (simp add: gapWorld_def)
  have log: "readLog ?w1 = [''scripts/a.txt'']" by (simp add: gapWorld_def)
  from unreadable_file_aborts_search [OF files pre miss unreadable, of lit
         "\<lparr>pattern = ''PICARD'', contextLines = None\<rparr>"]
       unreadable_file_aborts_search [OF files pre miss unreadable, of lit
         "\<lparr>pattern = ''engage'', contextLines = None\<rparr>"]
       files src log
  show ?thesis by simp
qed

section \<open>Where the code departs from its documentation\<close>

text \<open>
  C2 (speaker names with spaces and parentheses). The line \<^verbatim>\<open>PICARD (V.O.): Engage.\<close> is an
  upper-case name of letters, a space, parentheses and periods, followed by a colon.
  \<^verbatim>\<open>CUE_START\<close> does not match it: the character class of the name holds the letter \<^verbatim>\<open>s\<close>
  where \<^verbatim>\<open>\s\<close> was meant, so the name stops at the space, and the annotation group, which
  lost its escaped parentheses, cannot pass the closing parenthesis. The line is taken
  as a continuation and its cue has no speaker. The same group, which accepts any text
  without a closing parenthesis, takes the speaker of \<^verbatim>\<open>PICARD: Mr. Data: report\<close> up to
  the last colon. It is also the only way in which a name with a space is matched: the
  base name alone, followed by the colon, does not match \<^verbatim>\<open>LA FORGE: Aye, sir.\<close>
\<close>

theorem spaced_annotation_not_cue_start:
  "re_exec False CUE_START ''PICARD (V.O.): Engage.'' = None
   \<and> classifyLine ''PICARD (V.O.): Engage.'' (trim ''PICARD (V.O.): Engage.'') = ContinuationLine
   \<and> parseContent ''PICARD (V.O.): Engage.''
       = [\<lparr>raw = ''PICARD (V.O.): Engage.'', character = None\<rparr>]
   \<and> classifyLine ''PICARD: Mr. Data: report'' (trim ''PICARD: Mr. Data: report'')
       = CueStartLine (Some ''PICARD: Mr. Data'')
   \<and> re_exec False (Seq Bol (Seq SPEAKER_BASE_NAME (Lit CHR '':''))) ''LA FORGE: Aye, sir.''
       = None"
  by code_simp

text \<open>
  C6 (speaker search). The movie-style label \<^verbatim>\<open>PICARD (V.O.)\<close> gives a cue of speaker
  \<^verbatim>\<open>PICARD (V.O.)\<close>. The documentation of \<^verbatim>\<open>searchDialog\<close> says that the pattern \<^verbatim>\<open>PICARD\<close>
  matches such a speaker; the filter rejects it, because the annotation groups of the
  template literal lost their escaped parentheses and brackets. For the same reason the
  filter accepts the speaker \<^verbatim>\<open>PICARDO\<close>, which is not the pattern.
\<close>

theorem annotated_speaker_not_matched:
  "parseContent (''          PICARD (V.O.)'' @ [CHR 0x0A] @ ''Engage.'')
     = [\<lparr>raw = ''PICARD (V.O.): Engage.'', character = Some ''PICARD (V.O.)''\<rparr>]
   \<and> dialogFilter lit ''PICARD''
        \<lparr>raw = ''PICARD (V.O.): Engage.'', character = Some ''PICARD (V.O.)''\<rparr> = False
   \<and> dialogFilter lit ''PICARD''
        \<lparr>raw = ''PICARDO: Engage.'', character = Some ''PICARDO''\<rparr> = True"
  by code_simp

text \<open>
  The windows of a match hold at most the clamped number of cues, all of the file of
  the match.
\<close>

lemma matchesInFile_windows:
  assumes "m \<in> set (matchesInFile filterFn num fileCues)" and "0 \<le> num"
  shows "length (before m) \<le> nat num \<and> length (after m) \<le> nat num \<and>
         set (before m) \<subseteq> set fileCues \<and> set (after m) \<subseteq> set fileCues"
proof -
  from assms(1) obtain index where
    m: "m = \<lparr>cue = fileCues ! index,
              before = slice fileCues (max 0 (int index - num)) (int index),
              after = slice fileCues (int index + 1)
                        (min (int (length fileCues)) (int index + 1 + num))\<rparr>"
    by (auto simp: matchesInFile_def Let_def split: if_splits)
  have "set (before m) \<subseteq> set fileCues" "set (after m) \<subseteq> set fileCues"
    unfolding m slice_def
    by (auto dest!: in_set_takeD in_set_dropD)
  moreover have "length (before m) \<le> nat num" "length (after m) \<le> nat num"
    unfolding m slice_def using assms(2) by auto
  ultimately show ?thesis by simp
qed

text \<open>
  C7 (context windows and the reported context size). A request for \<open>-1\<close> context lines
  is served with windows of size 0, the clamped size, and the response reports
  \<open>contextLinesUsed = -1\<close>: the field echoes the request, while its documentation calls
  it the number of context lines that were retrieved.
\<close>

theorem context_lines_used_not_clamped:
  "numContextLines (Some (- 1)) = 0
   \<and> fst (searchDialog lit 0 ''scripts'' \<lparr>pattern = ''PICARD'', contextLines = Some (- 1)\<rparr>
             bridgeWorld)
       = Inr \<lparr>cues_found = [\<lparr>cue = \<lparr>raw = ''PICARD: Engage.'', character = Some ''PICARD''\<rparr>,
                               before = [], after = []\<rparr>],
              total = 1, pattern_used = ''PICARD'', contextLinesUsed = Some (- 1)\<rparr>"
proof -
  let ?cs = "[\<lparr>raw = ''RIKER: Ready.'', character = Some ''RIKER''\<rparr>,
              \<lparr>raw = ''PICARD: Engage.'', character = Some ''PICARD''\<rparr>,
              \<lparr>raw = ''DATA: Aye, sir.'', character = Some ''DATA''\<rparr>]"
  have pc: "parseContent (''RIKER: Ready.'' @ [CHR 0x0A] @ ''PICARD: Engage.'' @ [CHR 0x0A]
                          @ ''DATA: Aye, sir.'') = ?cs"
    by code_simp
  have g: "get 0 (basename ''scripts/bridge.txt'') (cacheService bridgeWorld)
             = (None, transcriptsService)"
    using get_empty_store [of transcriptsService 0 "basename ''scripts/bridge.txt''"]
    by (simp add: bridgeWorld_def transcriptsService_def)
  obtain svc2 where se: "set_entry 0 (basename ''scripts/bridge.txt'')
      (parseContent (''RIKER: Ready.'' @ [CHR 0x0A] @ ''PICARD: Engage.'' @ [CHR 0x0A]
                     @ ''DATA: Aye, sir.'')) None transcriptsService = Inr svc2"
    using set_entry_transcripts by blast
  have src: "sourceFiles bridgeWorld ''scripts/bridge.txt''
               = Some (''RIKER: Ready.'' @ [CHR 0x0A] @ ''PICARD: Engage.'' @ [CHR 0x0A]
                       @ ''DATA: Aye, sir.'')"
    by (simp add: bridgeWorld_def)
  from parseTranscript_miss [OF g src se] obtain w' where
    pt: "parseTranscript 0 ''scripts/bridge.txt'' bridgeWorld = (Inr ?cs, w')"
    unfolding pc by blast
  have gf: "getTranscriptFiles ''scripts'' bridgeWorld = [''scripts/bridge.txt'']"
    by code_simp
  have n: "numContextLines (Some (- 1)) = 0" by (simp add: numContextLines_def)
  have mf: "matchesInFile (dialogFilter lit ''PICARD'') 0 ?cs
              = [\<lparr>cue = \<lparr>raw = ''PICARD: Engage.'', character = Some ''PICARD''\<rparr>,
                  before = [], after = []\<rparr>]"
    by code_simp
  show ?thesis
    by (simp add: searchDialog_def searchCuesByFilter_def gf pt n mf)
qed

end
